theory Spec2Isabelle
  imports Main "HOL-Library.Sublist"
begin

section \<open>Strings\<close>

text \<open>
  Source strings are modelled as \<^typ>\<open>string\<close>, one \<^typ>\<open>char\<close> per code unit below 256.
  The character classes below are the ones the regular expressions of
  \<^verbatim>\<open>src/blocks/utils.ts\<close> name, restricted to that range.
\<close>

definition is_space :: "char \<Rightarrow> bool" where
  \<comment> \<open>\<^verbatim>\<open>\s\<close> and the characters \<^verbatim>\<open>trim()\<close> removes: TAB, LF, VT, FF, CR, SP, NBSP\<close>
  "is_space c = (of_char c \<in> {9, 10, 11, 12, 13, 32, 160 :: nat})"

definition is_name_char :: "char \<Rightarrow> bool" where
  \<comment> \<open>the class \<^verbatim>\<open>[a-z0-9_-]\<close>\<close>
  "is_name_char c =
     (let n = (of_char c :: nat)
      in (97 \<le> n \<and> n \<le> 122) \<or> (48 \<le> n \<and> n \<le> 57) \<or> c = CHR ''_'' \<or> c = CHR ''-'')"

definition is_sep :: "char \<Rightarrow> bool" where
  \<comment> \<open>the class \<^verbatim>\<open>[_-]\<close>\<close>
  "is_sep c = (c = CHR ''_'' \<or> c = CHR ''-'')"

definition lower_char :: "char \<Rightarrow> char" where
  \<comment> \<open>\<^verbatim>\<open>toLowerCase()\<close> on one code unit below 256: A-Z, and the Latin-1 capitals but the times sign\<close>
  "lower_char c =
     (let n = (of_char c :: nat)
      in if (65 \<le> n \<and> n \<le> 90) \<or> (192 \<le> n \<and> n \<le> 222 \<and> n \<noteq> 215) then char_of (n + 32) else c)"

definition toLowerCase :: "string \<Rightarrow> string" where
  "toLowerCase s = map lower_char s"

definition trim :: "string \<Rightarrow> string" where
  "trim s = rev (dropWhile is_space (rev (dropWhile is_space s)))"

text \<open>
  \<^verbatim>\<open>s.replace(/[P]{n,}/g, rep)\<close>: every maximal run of characters of the class \<open>P\<close> that is
  at least \<open>n\<close> long is replaced by \<open>rep\<close>; shorter runs stay.
\<close>

function replace_runs :: "(char \<Rightarrow> bool) \<Rightarrow> nat \<Rightarrow> string \<Rightarrow> string \<Rightarrow> string" where
  "replace_runs P n rep [] = []"
| "replace_runs P n rep (c # cs) =
     (if P c
      then (if n \<le> length (takeWhile P (c # cs)) then rep else takeWhile P (c # cs))
             @ replace_runs P n rep (dropWhile P cs)
      else c # replace_runs P n rep cs)"
  by pat_completeness auto
termination
  by (relation "measure (\<lambda>(P, n, rep, s). length s)")
     (auto simp: length_dropWhile_le less_Suc_eq_le)

definition strip_seps :: "string \<Rightarrow> string" where
  \<comment> \<open>\<^verbatim>\<open>.replace(/^[_-]+|[_-]+$/g, "")\<close>\<close>
  "strip_seps s = rev (dropWhile is_sep (rev (dropWhile is_sep s)))"

definition clean_lowered :: "string \<Rightarrow> string" where
  \<comment> \<open>the steps of \<^verbatim>\<open>cleanToolName\<close> after \<^verbatim>\<open>trim().toLowerCase()\<close>\<close>
  "clean_lowered s =
     take 64
       (strip_seps
         (replace_runs is_sep 2 ''_''
           (map (\<lambda>c. if is_name_char c then c else CHR ''_'')
             (replace_runs is_space 1 ''_'' s))))"

definition cleanToolName :: "string \<Rightarrow> string" where
  "cleanToolName name = clean_lowered (toLowerCase (trim name))"

text \<open>\<^verbatim>\<open>String(n)\<close> for a non-negative integer: its decimal digits.\<close>

definition digit_char :: "nat \<Rightarrow> char" where
  "digit_char d = ''0123456789'' ! d"

function show_nat :: "nat \<Rightarrow> string" where
  "show_nat n = (if n < 10 then [digit_char n] else show_nat (n div 10) @ [digit_char (n mod 10)])"
  by pat_completeness auto
termination
  by (relation "measure id") auto

declare show_nat.simps [simp del]

definition str_includes :: "string \<Rightarrow> string \<Rightarrow> bool" where
  \<comment> \<open>\<^verbatim>\<open>s.includes(sub)\<close>\<close>
  "str_includes s sub = list_ex (prefix sub) (suffixes s)"

definition quoted :: "string \<Rightarrow> string" where
  \<comment> \<open>the text between two double quotes\<close>
  "quoted s = CHR 0x22 # s @ [CHR 0x22]"

section \<open>Data model\<close>

text \<open>
  JSON payloads the orchestrator never looks into (tool inputs, schemas) and the request
  parameters it only forwards to the network client (model, maxTokens, systemPrompt,
  mcpServers, thinking, thinkingBudget, temperature) are opaque strings.
\<close>

type_synonym json = string
type_synonym Passthrough = string

datatype Force = ForceBool bool | ForceName string

datatype ContentBlock =
    TextBlock string
  | ToolUseBlock string string json
  | ThinkingBlock string
  | ToolResultBlock string string
  | OtherBlock

datatype Role = User | Assistant

datatype MsgContent = Plain string | Blocks "ContentBlock list"

type_synonym MessageParam = "Role \<times> MsgContent"

datatype StopReason = EndTurn | ToolUse | OtherStop

record Message =
  content :: "ContentBlock list"
  stop_reason :: StopReason
  input_tokens :: int
  output_tokens :: int

datatype StreamEvent =
    McpToolUseStart string string string
  | McpToolResultStart string
  | TextStart
  | ThinkingStart
  | OtherEvent

text \<open>
  One call of the model: the \<^verbatim>\<open>content_block_start\<close> events the stream yields, then either the
  final message or the message of the error the stream raises.
\<close>

record ApiOutcome =
  chunks :: "StreamEvent list"
  final :: "string + Message"

record ToolDefinition =
  td_blockId :: string
  td_name :: string
  td_description :: string
  td_schema :: json

type_synonym Tool = "string \<times> string \<times> json"

record CallState =
  cs_messages :: "MessageParam list"
  cs_toolCallIds :: "string list"
  cs_pendingId :: string
  cs_toolDefinitions :: "ToolDefinition list"
  cs_force :: Force
  cs_params :: Passthrough
  cs_turn :: nat
  cs_maxRetries :: int
  cs_schema :: "json option"
  cs_originalEventId :: string

text \<open>
  What the block keeps in its store: a call state under \<^verbatim>\<open>call-\<close>, a fragment (tool-call
  identifier and payload, a string as \<^verbatim>\<open>toolDefinition\<close> sends it) under \<^verbatim>\<open>result-\<close>, a timer
  handle under \<^verbatim>\<open>timer-\<close>, the lock under \<^verbatim>\<open>lock-\<close>.
\<close>

datatype KVValue =
    CallStateV CallState
  | FragmentV string string
  | TimerV nat
  | BoolV bool

text \<open>Every call of the host SDK and of the model that changes something outside the handler.\<close>

datatype Effect =
    KvSet string KVValue "nat option"
  | KvDelete "string list"
  | TimerSet nat nat string
  | TimerUnset nat
  | UpdatePending string string
  | CancelPending string string
  | Emit string "json option" int int string string
  | SendToBlocks "string option" string string json string
  | ApiRequest "MessageParam list" "Tool list" Force
  | Sleep nat

text \<open>
  The world a handler runs in: the block's key-value store (\<^verbatim>\<open>kv.block\<close>), the timers that are
  scheduled and have not fired, the next timer identifier the host hands out, the number of
  model calls made so far, and the effects in the order they happened.
\<close>

record World =
  kv :: "(string \<times> KVValue) list"
  timers :: "(nat \<times> string) list"
  next_timer :: nat
  api_calls :: nat
  trace :: "Effect list"

text \<open>What lies outside the repository: the model's answer to the n-th call, and the schema validator.\<close>

record Ext =
  api :: "nat \<Rightarrow> ApiOutcome"
  validate :: "json \<Rightarrow> json \<Rightarrow> bool"

section \<open>The host SDK\<close>

text \<open>
  The calls of the host SDK the orchestrator makes, as far as the source shows them.
  \<^item> \<^verbatim>\<open>kv.block\<close> is one store for all conversations of the block, keyed by text. It is an
    association list: \<^verbatim>\<open>set\<close> replaces the value of a key that is there and appends a new key,
    \<^verbatim>\<open>list\<close> returns the pairs under a prefix in the order of the store. A time to live is
    logged with the write; expiry is a matter of real time and is not modelled.
  \<^item> \<^verbatim>\<open>timers.set\<close> hands out a fresh identifier and schedules a timer, \<^verbatim>\<open>timers.unset\<close>
    removes it. Identifiers are numbered here; the source only tests them for being there.
  \<^item> The calls themselves do not raise. The one call that can fail is the model's.
\<close>

definition effect :: "Effect \<Rightarrow> World \<Rightarrow> World" where
  "effect e w = w\<lparr>trace := trace w @ [e]\<rparr>"

fun upsert :: "string \<Rightarrow> KVValue \<Rightarrow> (string \<times> KVValue) list \<Rightarrow> (string \<times> KVValue) list" where
  "upsert k v [] = [(k, v)]"
| "upsert k v ((k', v') # kvs) = (if k' = k then (k, v) # kvs else (k', v') # upsert k v kvs)"

definition kv_get :: "World \<Rightarrow> string \<Rightarrow> KVValue option" where
  "kv_get w k = map_of (kv w) k"

definition kv_set :: "string \<Rightarrow> KVValue \<Rightarrow> nat option \<Rightarrow> World \<Rightarrow> World" where
  "kv_set k v ttl w = effect (KvSet k v ttl) (w\<lparr>kv := upsert k v (kv w)\<rparr>)"

definition kv_delete :: "string list \<Rightarrow> World \<Rightarrow> World" where
  "kv_delete ks w = effect (KvDelete ks) (w\<lparr>kv := filter (\<lambda>(k, v). k \<notin> set ks) (kv w)\<rparr>)"

definition kv_list :: "World \<Rightarrow> string \<Rightarrow> (string \<times> KVValue) list" where
  "kv_list w keyPrefix = filter (\<lambda>(k, v). prefix keyPrefix k) (kv w)"

definition truthy :: "KVValue option \<Rightarrow> bool" where
  "truthy v = (case v of None \<Rightarrow> False | Some (BoolV b) \<Rightarrow> b | Some _ \<Rightarrow> True)"

definition timers_set :: "nat \<Rightarrow> string \<Rightarrow> World \<Rightarrow> nat \<times> World" where
  "timers_set seconds eventId w =
     (next_timer w,
      effect (TimerSet (next_timer w) seconds eventId)
        (w\<lparr>timers := timers w @ [(next_timer w, eventId)], next_timer := Suc (next_timer w)\<rparr>))"

definition timers_unset :: "nat \<Rightarrow> World \<Rightarrow> World" where
  "timers_unset i w = effect (TimerUnset i) (w\<lparr>timers := filter (\<lambda>(j, e). j \<noteq> i) (timers w)\<rparr>)"

definition updatePending :: "string \<Rightarrow> string \<Rightarrow> World \<Rightarrow> World" where
  "updatePending pendingId statusDescription w = effect (UpdatePending pendingId statusDescription) w"

definition cancelPending :: "string \<Rightarrow> string \<Rightarrow> World \<Rightarrow> World" where
  "cancelPending pendingId reason w = effect (CancelPending pendingId reason) w"

definition streamMessage ::
  "Ext \<Rightarrow> MessageParam list \<Rightarrow> Tool list \<Rightarrow> Force \<Rightarrow> World \<Rightarrow> ApiOutcome \<times> World" where
  "streamMessage ext msgs tools frc w =
     (api ext (api_calls w),
      effect (ApiRequest msgs tools frc) (w\<lparr>api_calls := Suc (api_calls w)\<rparr>))"

section \<open>The orchestrator (\<^verbatim>\<open>src/blocks/utils.ts\<close>)\<close>

text \<open>
  The parameter objects of \<^verbatim>\<open>executeTurn\<close> and \<^verbatim>\<open>generateObject\<close>. \<^verbatim>\<open>maxRetries\<close> is whatever
  integer the configuration gave; a record of tool names or of tool results is a map.
\<close>

record TurnArgs =
  pendingId :: string
  eventId :: string
  blockId :: string
  messages :: "MessageParam list"
  toolDefinitions :: "ToolDefinition list"
  force :: Force
  params :: Passthrough
  turn :: nat
  apiKey :: string
  maxRetries :: int
  schema :: "json option"

record GenParams =
  go_messages :: "MessageParam list"
  go_schema :: json
  go_maxRetries :: int
  go_pendingId :: string
  go_inputTokens :: int
  go_outputTokens :: int
  go_parentEventId :: string

definition is_text :: "ContentBlock \<Rightarrow> bool" where
  "is_text b = (case b of TextBlock t \<Rightarrow> True | _ \<Rightarrow> False)"

definition is_tool_use :: "ContentBlock \<Rightarrow> bool" where
  "is_tool_use b = (case b of ToolUseBlock i n inp \<Rightarrow> True | _ \<Rightarrow> False)"

definition is_thinking :: "ContentBlock \<Rightarrow> bool" where
  "is_thinking b = (case b of ThinkingBlock t \<Rightarrow> True | _ \<Rightarrow> False)"

definition tool_use_id :: "ContentBlock \<Rightarrow> string" where
  "tool_use_id b = (case b of ToolUseBlock i n inp \<Rightarrow> i | _ \<Rightarrow> [])"

definition tool_use_name :: "ContentBlock \<Rightarrow> string" where
  "tool_use_name b = (case b of ToolUseBlock i n inp \<Rightarrow> n | _ \<Rightarrow> [])"

definition tool_use_input :: "ContentBlock \<Rightarrow> json" where
  "tool_use_input b = (case b of ToolUseBlock i n inp \<Rightarrow> inp | _ \<Rightarrow> [])"

definition lookup_name :: "(string \<rightharpoonup> string) \<Rightarrow> string \<Rightarrow> string" where
  \<comment> \<open>a record read inside a template string: a missing key prints as \<^verbatim>\<open>undefined\<close>\<close>
  "lookup_name m k = (case m k of Some v \<Rightarrow> v | None \<Rightarrow> ''undefined'')"

fun join_comma :: "string list \<Rightarrow> string" where
  "join_comma [] = []"
| "join_comma [x] = x"
| "join_comma (x # y # ys) = x @ '', '' @ join_comma (y # ys)"

definition joinToolNames :: "ContentBlock list \<Rightarrow> (string \<rightharpoonup> string) \<Rightarrow> string" where
  "joinToolNames toolCalls toolNames =
     (if length toolCalls = 0 then []
      else if length toolCalls = 1 then quoted (lookup_name toolNames (tool_use_name (hd toolCalls)))
      else join_comma (map (\<lambda>c. quoted (lookup_name toolNames (tool_use_name c))) (butlast toolCalls))
             @ '' and '' @ quoted (lookup_name toolNames (tool_use_name (last toolCalls))))"

definition processToolDefinitions ::
  "ToolDefinition list \<Rightarrow> Tool list \<times> (string \<rightharpoonup> string) \<times> (string \<rightharpoonup> string)" where
  "processToolDefinitions ds =
     (map (\<lambda>d. (cleanToolName (td_name d), td_description d, td_schema d)) ds,
      foldl (\<lambda>m d. m(cleanToolName (td_name d) \<mapsto> td_name d)) Map.empty ds,
      foldl (\<lambda>m d. m(cleanToolName (td_name d) \<mapsto> td_blockId d)) Map.empty ds)"

fun syncPendingEventWithStream ::
  "string \<Rightarrow> (string \<times> string \<times> string) option \<Rightarrow> StreamEvent list \<Rightarrow> World \<Rightarrow> World" where
  "syncPendingEventWithStream pid lastTool [] w = w"
| "syncPendingEventWithStream pid lastTool (McpToolUseStart n srv i # evs) w =
     syncPendingEventWithStream pid (Some (n, srv, i)) evs
       (updatePending pid (''Calling '' @ quoted n @ '' on '' @ quoted srv) w)"
| "syncPendingEventWithStream pid lastTool (McpToolResultStart tid # evs) w =
     syncPendingEventWithStream pid lastTool evs
       (case lastTool of
          Some (n, srv, i) \<Rightarrow>
            if i = tid
            then updatePending pid (''Received result of '' @ quoted n @ '' from '' @ quoted srv) w
            else w
        | None \<Rightarrow> w)"
| "syncPendingEventWithStream pid lastTool (TextStart # evs) w =
     syncPendingEventWithStream pid lastTool evs (updatePending pid ''Processing...'' w)"
| "syncPendingEventWithStream pid lastTool (ThinkingStart # evs) w =
     syncPendingEventWithStream pid lastTool evs (updatePending pid ''Thinking...'' w)"
| "syncPendingEventWithStream pid lastTool (OtherEvent # evs) w =
     syncPendingEventWithStream pid lastTool evs w"

definition emitResult :: "string \<Rightarrow> string \<Rightarrow> json option \<Rightarrow> int \<Rightarrow> int \<Rightarrow> string \<Rightarrow> World \<Rightarrow> World" where
  "emitResult pid txt obj inputTokens outputTokens parentEventId w =
     effect (Emit txt obj inputTokens outputTokens pid parentEventId) w"

definition without_thinking :: "MessageParam \<Rightarrow> MessageParam" where
  "without_thinking m =
     (case m of
        (r, Blocks bs) \<Rightarrow> (r, Blocks (filter (\<lambda>b. \<not> is_thinking b) bs))
      | (r, Plain t) \<Rightarrow> (r, Plain t))"

definition validated_object :: "Ext \<Rightarrow> json \<Rightarrow> Message \<Rightarrow> json option" where
  \<comment> \<open>the input of the first \<^verbatim>\<open>tool_use\<close> block of a \<^verbatim>\<open>tool_use\<close> answer, when it validates\<close>
  "validated_object ext sch message =
     (if stop_reason message = ToolUse
      then (case find is_tool_use (content message) of
              Some toolCall \<Rightarrow>
                if validate ext (tool_use_input toolCall) sch then Some (tool_use_input toolCall)
                else None
            | None \<Rightarrow> None)
      else None)"

definition generateObject_failed :: "GenParams \<Rightarrow> string option \<Rightarrow> World \<Rightarrow> (string + unit) \<times> World" where
  \<comment> \<open>the statements after the loop of \<^verbatim>\<open>generateObject\<close>\<close>
  "generateObject_failed p lastError w =
     (case lastError of
        Some e \<Rightarrow> (Inl e, cancelPending (go_pendingId p) (''Object generation failed: '' @ e) w)
      | None \<Rightarrow> (Inr (), cancelPending (go_pendingId p) ''Failed to generate object'' w))"

function generateObject_loop ::
  "Ext \<Rightarrow> string \<Rightarrow> GenParams \<Rightarrow> nat \<Rightarrow> int \<Rightarrow> int \<Rightarrow> string option \<Rightarrow> World
     \<Rightarrow> (string + unit) \<times> World" where
  "generateObject_loop ext finalText p retryCount inputTokens outputTokens lastError w =
     (if int retryCount < go_maxRetries p
      then
        (let w1 = updatePending (go_pendingId p)
                    (if retryCount = 0 then ''Generating object...''
                     else ''Generating object... (retry '' @ show_nat (retryCount + 1) @ '')'') w;
             r = streamMessage ext (map without_thinking (go_messages p))
                   [(''json'', ''Respond with a JSON object.'', go_schema p)] (ForceName ''json'') w1
         in case final (fst r) of
              Inr message \<Rightarrow>
                (case validated_object ext (go_schema p) message of
                   Some obj \<Rightarrow>
                     (Inr (), emitResult (go_pendingId p) finalText (Some obj)
                                (inputTokens + input_tokens message)
                                (outputTokens + output_tokens message)
                                (go_parentEventId p) (snd r))
                 | None \<Rightarrow>
                     generateObject_loop ext finalText p (retryCount + 1)
                       (inputTokens + input_tokens message)
                       (outputTokens + output_tokens message) lastError (snd r))
            | Inl err \<Rightarrow>
                if go_maxRetries p \<le> int (retryCount + 1)
                then generateObject_failed p (Some err) (snd r)
                else generateObject_loop ext finalText p (retryCount + 1)
                       inputTokens outputTokens (Some err) (snd r))
      else generateObject_failed p lastError w)"
  by pat_completeness auto
termination
  by (relation "measure (\<lambda>(ext, finalText, p, retryCount, rest). nat (go_maxRetries p - int retryCount))")
     auto

declare generateObject_loop.simps [simp del]

definition generateObject :: "Ext \<Rightarrow> string \<Rightarrow> GenParams \<Rightarrow> World \<Rightarrow> (string + unit) \<times> World" where
  "generateObject ext finalText p w =
     generateObject_loop ext finalText p 0 (go_inputTokens p) (go_outputTokens p) None w"

definition call_key :: "string \<Rightarrow> string" where
  "call_key e = ''call-'' @ e"

definition result_prefix :: "string \<Rightarrow> nat \<Rightarrow> string" where
  "result_prefix e t = ''result-'' @ e @ ''-'' @ show_nat t @ ''-''"

definition result_key :: "string \<Rightarrow> nat \<Rightarrow> string \<Rightarrow> string" where
  "result_key e t toolCallId = ''result-'' @ e @ ''-'' @ show_nat t @ ''-'' @ toolCallId"

definition timer_key :: "string \<Rightarrow> string" where
  "timer_key e = ''timer-'' @ e"

definition lock_key :: "string \<Rightarrow> string" where
  "lock_key e = ''lock-'' @ e"

definition storeCallState :: "string \<Rightarrow> CallState \<Rightarrow> World \<Rightarrow> World" where
  "storeCallState e cs w = kv_set (call_key e) (CallStateV cs) None w"

definition loadCallState :: "World \<Rightarrow> string \<Rightarrow> string + CallState" where
  \<comment> \<open>nothing but a call state is ever written under a \<^verbatim>\<open>call-\<close> key; any other value reads as missing\<close>
  "loadCallState w e =
     (case kv_get w (call_key e) of
        Some (CallStateV cs) \<Rightarrow> Inr cs
      | _ \<Rightarrow> Inl ''Call state not found'')"

definition deleteCallState :: "string \<Rightarrow> World \<Rightarrow> World" where
  "deleteCallState e w = kv_delete [call_key e] w"

definition storeToolResult :: "string \<Rightarrow> string \<Rightarrow> string \<Rightarrow> nat \<Rightarrow> World \<Rightarrow> World" where
  "storeToolResult e toolCallId result t w =
     kv_set (result_key e t toolCallId) (FragmentV toolCallId result) (Some (60 * 5)) w"

definition toolResults_of :: "(string \<times> KVValue) list \<Rightarrow> (string \<rightharpoonup> string)" where
  \<comment> \<open>the \<^verbatim>\<open>reduce\<close> of \<^verbatim>\<open>loadToolResults\<close>: a later pair overwrites an earlier one\<close>
  "toolResults_of pairs =
     foldl (\<lambda>acc (k, v). case v of FragmentV toolCallId result \<Rightarrow> acc(toolCallId \<mapsto> result) | _ \<Rightarrow> acc)
       Map.empty pairs"

definition loadToolResults ::
  "World \<Rightarrow> string \<Rightarrow> nat \<Rightarrow> string list \<Rightarrow> bool \<times> (string \<rightharpoonup> string)" where
  "loadToolResults w e t toolCallIds =
     (let toolResults = toolResults_of (kv_list w (result_prefix e t))
      in (list_all (\<lambda>toolCallId. toolResults toolCallId \<noteq> None) toolCallIds, toolResults))"

definition setTimeoutTimer :: "string \<Rightarrow> World \<Rightarrow> World" where
  "setTimeoutTimer e w =
     (let r = timers_set (60 * 2) e w
      in kv_set (timer_key e) (TimerV (fst r)) None (snd r))"

definition clearTimeoutTimer :: "string \<Rightarrow> World \<Rightarrow> World" where
  "clearTimeoutTimer e w =
     (case kv_get w (timer_key e) of
        Some (TimerV i) \<Rightarrow> timers_unset i w
      | _ \<Rightarrow> w)"

definition isTimerLocked :: "World \<Rightarrow> string \<Rightarrow> bool" where
  "isTimerLocked w e = truthy (kv_get w (lock_key e))"

definition setTimerLock :: "string \<Rightarrow> World \<Rightarrow> World" where
  "setTimerLock e w = kv_set (lock_key e) (BoolV True) (Some (60 * 5)) w"

definition clearTimerLock :: "string \<Rightarrow> World \<Rightarrow> World" where
  "clearTimerLock e w = kv_delete [lock_key e] w"

definition sendToolCall :: "TurnArgs \<Rightarrow> (string \<rightharpoonup> string) \<Rightarrow> ContentBlock \<Rightarrow> World \<Rightarrow> World" where
  "sendToolCall a toolBlockIds toolCall w =
     effect (SendToBlocks (toolBlockIds (tool_use_name toolCall)) (blockId a) (eventId a)
               (tool_use_input toolCall) (tool_use_id toolCall)) w"

definition handleModelResponse :: "Ext \<Rightarrow> TurnArgs \<Rightarrow> Message \<Rightarrow> World \<Rightarrow> (string + unit) \<times> World" where
  "handleModelResponse ext a message w =
     (let toolNames = fst (snd (processToolDefinitions (toolDefinitions a)));
          toolBlockIds = snd (snd (processToolDefinitions (toolDefinitions a)))
      in case stop_reason message of
           EndTurn \<Rightarrow>
             (case find is_text (rev (content message)) of
                Some (TextBlock t) \<Rightarrow>
                  if t = [] then (Inl ''Model did not respond with text'', w)
                  else (case schema a of
                          Some sch \<Rightarrow>
                            generateObject ext t
                              \<lparr>go_messages = messages a @ [(Assistant, Blocks (content message))],
                               go_schema = sch,
                               go_maxRetries = maxRetries a,
                               go_pendingId = pendingId a,
                               go_inputTokens = input_tokens message,
                               go_outputTokens = output_tokens message,
                               go_parentEventId = eventId a\<rparr> w
                        | None \<Rightarrow>
                            (Inr (), emitResult (pendingId a) t None (input_tokens message)
                                       (output_tokens message) (eventId a) w))
              | _ \<Rightarrow> (Inl ''Model did not respond with text'', w))
         | ToolUse \<Rightarrow>
             (let toolCalls = filter is_tool_use (content message);
                  toolCallNames = joinToolNames toolCalls toolNames;
                  w1 = updatePending (pendingId a)
                         (if length toolCalls = 1 then ''Calling tool: '' @ toolCallNames
                          else ''Calling tools: '' @ toolCallNames) w;
                  w2 = foldl (\<lambda>w' toolCall. sendToolCall a toolBlockIds toolCall w') w1 toolCalls;
                  w3 = storeCallState (eventId a)
                         \<lparr>cs_messages = messages a @ [(Assistant, Blocks (content message))],
                          cs_toolCallIds = map tool_use_id toolCalls,
                          cs_pendingId = pendingId a,
                          cs_toolDefinitions = toolDefinitions a,
                          cs_force = force a,
                          cs_params = params a,
                          cs_turn = turn a + 1,
                          cs_maxRetries = maxRetries a,
                          cs_schema = schema a,
                          cs_originalEventId = eventId a\<rparr> w2
              in (Inr (), setTimeoutTimer (eventId a) w3))
         | OtherStop \<Rightarrow>
             (Inr (), deleteCallState (eventId a)
                        (cancelPending (pendingId a) ''Unexpected response from model'' w)))"

definition isRetryable :: "string \<Rightarrow> bool" where
  "isRetryable msg =
     (let errorMessage = toLowerCase msg
      in str_includes errorMessage ''overloaded'' \<or> str_includes errorMessage ''rate limit''
         \<or> str_includes errorMessage ''timeout'' \<or> str_includes errorMessage ''502''
         \<or> str_includes errorMessage ''503'' \<or> str_includes errorMessage ''504'')"

definition backoff_delay :: "nat \<Rightarrow> nat" where
  \<comment> \<open>\<^verbatim>\<open>Math.min(1000 * Math.pow(2, retryCount - 1), 10000)\<close>, the count already incremented\<close>
  "backoff_delay retryCount = min (1000 * 2 ^ (retryCount - 1)) 10000"

definition executeTurn_failed :: "TurnArgs \<Rightarrow> string option \<Rightarrow> World \<Rightarrow> (string + unit) \<times> World" where
  \<comment> \<open>the statements after the loop of \<^verbatim>\<open>executeTurn\<close>\<close>
  "executeTurn_failed a lastError w =
     (let shown = (case lastError of Some m \<Rightarrow> if m = [] then ''Unknown error'' else m
                   | None \<Rightarrow> ''Unknown error'');
          w1 = cancelPending (pendingId a) (''API call failed: '' @ shown) w;
          w2 = deleteCallState (eventId a) w1
      in (Inl (case lastError of Some m \<Rightarrow> m | None \<Rightarrow> ''Unknown error''), w2))"

function executeTurn_loop ::
  "Ext \<Rightarrow> TurnArgs \<Rightarrow> nat \<Rightarrow> string option \<Rightarrow> World \<Rightarrow> (string + unit) \<times> World" where
  "executeTurn_loop ext a retryCount lastError w =
     (if int retryCount < maxRetries a
      then
        (let w1 = (if 0 < retryCount
                   then updatePending (pendingId a)
                          (''Retrying API call... (attempt '' @ show_nat (retryCount + 1) @ '')'') w
                   else w);
             r = streamMessage ext (messages a) (fst (processToolDefinitions (toolDefinitions a)))
                   (force a) w1;
             w3 = syncPendingEventWithStream (pendingId a) None (chunks (fst r)) (snd r)
         in case final (fst r) of
              Inr message \<Rightarrow> handleModelResponse ext a message w3
            | Inl err \<Rightarrow>
                if \<not> isRetryable err \<or> maxRetries a \<le> int (retryCount + 1)
                then executeTurn_failed a (Some err) w3
                else executeTurn_loop ext a (retryCount + 1) (Some err)
                       (effect (Sleep (backoff_delay (retryCount + 1))) w3))
      else executeTurn_failed a lastError w)"
  by pat_completeness auto
termination
  by (relation "measure (\<lambda>(ext, a, retryCount, rest). nat (maxRetries a - int retryCount))") auto

declare executeTurn_loop.simps [simp del]

definition executeTurn :: "Ext \<Rightarrow> TurnArgs \<Rightarrow> World \<Rightarrow> (string + unit) \<times> World" where
  "executeTurn ext a w = executeTurn_loop ext a 0 None w"

definition continueTurn ::
  "Ext \<Rightarrow> string \<Rightarrow> CallState \<Rightarrow> (string \<rightharpoonup> string) \<Rightarrow> string \<Rightarrow> string \<Rightarrow> World
     \<Rightarrow> (string + unit) \<times> World" where
  "continueTurn ext e cs toolResults key bid w =
     (let w1 = updatePending (cs_pendingId cs)
                 (''Received results from tool''
                    @ (if length (cs_toolCallIds cs) = 1 then [] else ''s'') @ ''...'') w;
          nextMessages = cs_messages cs
            @ [(User, Blocks (List.map_filter
                                (\<lambda>i. case toolResults i of
                                        None \<Rightarrow> None
                                      | Some result \<Rightarrow> Some (ToolResultBlock i result))
                                (cs_toolCallIds cs)))]
      in executeTurn ext
           \<lparr>pendingId = cs_pendingId cs, eventId = e, blockId = bid, messages = nextMessages,
            toolDefinitions = cs_toolDefinitions cs, force = cs_force cs, params = cs_params cs,
            turn = cs_turn cs, apiKey = key, maxRetries = cs_maxRetries cs,
            schema = cs_schema cs\<rparr> w1)"

section \<open>The handlers of the \<^verbatim>\<open>generateMessage\<close> block\<close>

record HandlerInput =
  in_apiKey :: string
  in_blockId :: string

definition onTimer :: "Ext \<Rightarrow> HandlerInput \<Rightarrow> string \<Rightarrow> World \<Rightarrow> (string + unit) \<times> World" where
  "onTimer ext inp e w =
     (let w1 = setTimerLock e w
      in case loadCallState w1 e of
           Inl err \<Rightarrow> (Inl err, w1)
         | Inr cs \<Rightarrow>
             (let lr = loadToolResults w1 e (cs_turn cs) (cs_toolCallIds cs)
              in if \<not> fst lr
                 then (Inr (), cancelPending (cs_pendingId cs) ''Timeout'' (clearTimerLock e w1))
                 else (case continueTurn ext e cs (snd lr) (in_apiKey inp) (in_blockId inp) w1 of
                         (Inl err, w2) \<Rightarrow> (Inl err, w2)
                       | (Inr u, w2) \<Rightarrow> (Inr (), clearTimerLock e w2))))"

definition onInternalMessage ::
  "Ext \<Rightarrow> HandlerInput \<Rightarrow> string \<Rightarrow> string \<Rightarrow> string \<Rightarrow> World \<Rightarrow> (string + unit) \<times> World" where
  "onInternalMessage ext inp result e toolCallId w =
     (if isTimerLocked w e then (Inr (), w)
      else case loadCallState w e of
             Inl err \<Rightarrow> (Inl err, w)
           | Inr cs \<Rightarrow>
               (let w1 = clearTimeoutTimer e w;
                    w2 = storeToolResult e toolCallId result (cs_turn cs) w1;
                    lr = loadToolResults w2 e (cs_turn cs) (cs_toolCallIds cs)
                in if \<not> fst lr then (Inr (), setTimeoutTimer e w2)
                   else continueTurn ext e cs (snd lr) (in_apiKey inp) (in_blockId inp) w2))"

section \<open>Notions the statements use\<close>

text \<open>The world before anything has happened.\<close>

definition empty_world :: World where
  "empty_world = \<lparr>kv = [], timers = [], next_timer = 0, api_calls = 0, trace = []\<rparr>"

text \<open>The part of the world that outlives a handler: the store and the timers.\<close>

definition durable :: "World \<Rightarrow> (string \<times> KVValue) list \<times> (nat \<times> string) list \<times> nat" where
  "durable w = (kv w, timers w, next_timer w)"

text \<open>
  What one run of the turn executor for the conversation \<open>e\<close> can do to the store and the
  timers: nothing, suspend (store the call state, then register a timeout), or discard the
  call state.
\<close>

definition turn_outcome :: "string \<Rightarrow> World \<Rightarrow> World \<Rightarrow> bool" where
  "turn_outcome e w w' =
     (durable w' = durable w
      \<or> (\<exists>cs. durable w' = durable (setTimeoutTimer e (storeCallState e cs w)))
      \<or> durable w' = durable (deleteCallState e w))"

text \<open>
  A store is well keyed for a conversation and a turn when no key occurs twice and every key
  under the prefix \<^verbatim>\<open>result-<eventId>-<turn>-\<close> is the key \<^verbatim>\<open>storeToolResult\<close> writes for the fragment
  stored under it.
\<close>

definition well_keyed :: "World \<Rightarrow> string \<Rightarrow> nat \<Rightarrow> bool" where
  "well_keyed w e t =
     (distinct (map fst (kv w)) \<and>
      list_all (\<lambda>(k, v). if prefix (result_prefix e t) k
                          then (case v of FragmentV i r \<Rightarrow> k = result_key e t i | _ \<Rightarrow> False)
                          else True) (kv w))"

text \<open>Reading a decimal numeral back, to show that \<^const>\<open>show_nat\<close> is injective.\<close>

definition digit_val :: "char \<Rightarrow> nat" where
  "digit_val c = (of_char c :: nat) - 48"

definition read_nat :: "string \<Rightarrow> nat" where
  "read_nat s = foldl (\<lambda>acc c. 10 * acc + digit_val c) 0 s"

text \<open>The delays, the cancellations and the results in the trace, in order.\<close>

definition sleeps :: "World \<Rightarrow> nat list" where
  "sleeps w = List.map_filter (\<lambda>x. case x of Sleep d \<Rightarrow> Some d | _ \<Rightarrow> None) (trace w)"

definition cancels :: "World \<Rightarrow> (string \<times> string) list" where
  "cancels w = List.map_filter (\<lambda>x. case x of CancelPending p d \<Rightarrow> Some (p, d) | _ \<Rightarrow> None) (trace w)"

definition emits :: "World \<Rightarrow> Effect list" where
  "emits w = filter (\<lambda>x. case x of Emit t ob i o' p pe \<Rightarrow> True | _ \<Rightarrow> False) (trace w)"

text \<open>
  What the retry loop leaves alone until it hands the answer over or gives up: the store, the
  timers, the cancellations and the results.
\<close>

definition quiet :: "World \<Rightarrow> (string \<times> KVValue) list \<times> (nat \<times> string) list \<times> nat \<times> (string \<times> string) list \<times> Effect list" where
  "quiet w = (kv w, timers w, next_timer w, cancels w, emits w)"

text \<open>The world after one attempt of \<^verbatim>\<open>executeTurn\<close>: status update, request, stream events.\<close>

definition attempt_world :: "Ext \<Rightarrow> TurnArgs \<Rightarrow> nat \<Rightarrow> World \<Rightarrow> World" where
  "attempt_world ext a retryCount w =
     syncPendingEventWithStream (pendingId a) None
       (chunks (api ext (api_calls w)))
       (snd (streamMessage ext (messages a) (fst (processToolDefinitions (toolDefinitions a)))
               (force a)
               (if 0 < retryCount
                then updatePending (pendingId a)
                       (''Retrying API call... (attempt '' @ show_nat (retryCount + 1) @ '')'') w
                else w)))"

text \<open>Concrete scenarios: an answer, a model that refuses the key, one first turn.\<close>

definition msg_hi :: Message where
  "msg_hi = \<lparr>content = [TextBlock ''Hi there''], stop_reason = EndTurn, input_tokens = 5, output_tokens = 3\<rparr>"

definition ext_unauthorized :: Ext where
  "ext_unauthorized =
     \<lparr>api = (\<lambda>n. \<lparr>chunks = [], final = Inl ''invalid x-api-key''\<rparr>), validate = (\<lambda>obj sch. True)\<rparr>"

definition args_hello :: TurnArgs where
  "args_hello =
     \<lparr>pendingId = ''p'', eventId = ''e'', blockId = ''b'', messages = [(User, Plain ''Hello'')],
      toolDefinitions = [], force = ForceBool False, params = [], turn = 0, apiKey = ''k'',
      maxRetries = 3, schema = None\<rparr>"

text \<open>
  The failures the retry policy names, as the texts an error message carries; a failure is
  transient when its message, letter case apart, contains one of them.
\<close>

definition transient_marks :: "string list" where
  "transient_marks = [''overloaded'', ''rate limit'', ''timeout'', ''502'', ''503'', ''504'']"

definition transient :: "string \<Rightarrow> bool" where
  "transient msg = list_ex (\<lambda>k. sublist k (toLowerCase msg)) transient_marks"





text \<open>The world after one attempt of \<^verbatim>\<open>generateObject\<close>: status update, then the request.\<close>

definition go_attempt_world :: "Ext \<Rightarrow> GenParams \<Rightarrow> nat \<Rightarrow> World \<Rightarrow> World" where
  "go_attempt_world ext p retryCount w =
     snd (streamMessage ext (map without_thinking (go_messages p))
            [(''json'', ''Respond with a JSON object.'', go_schema p)] (ForceName ''json'')
            (updatePending (go_pendingId p)
               (if retryCount = 0 then ''Generating object...''
                else ''Generating object... (retry '' @ show_nat (retryCount + 1) @ '')'') w))"

text \<open>
  What the n-th call of the model contributes to an extraction: the tokens it used, the object
  it produced if that validates, the error it raised.
\<close>

definition attempt_in :: "Ext \<Rightarrow> nat \<Rightarrow> int" where
  "attempt_in ext n = (case final (api ext n) of Inr m \<Rightarrow> input_tokens m | Inl e \<Rightarrow> 0)"

definition attempt_out :: "Ext \<Rightarrow> nat \<Rightarrow> int" where
  "attempt_out ext n = (case final (api ext n) of Inr m \<Rightarrow> output_tokens m | Inl e \<Rightarrow> 0)"

definition attempt_obj :: "Ext \<Rightarrow> json \<Rightarrow> nat \<Rightarrow> json option" where
  "attempt_obj ext sch n = (case final (api ext n) of Inr m \<Rightarrow> validated_object ext sch m | Inl e \<Rightarrow> None)"

definition attempt_err :: "Ext \<Rightarrow> nat \<Rightarrow> string option" where
  "attempt_err ext n = (case final (api ext n) of Inr m \<Rightarrow> None | Inl e \<Rightarrow> Some e)"

definition errors :: "Ext \<Rightarrow> nat \<Rightarrow> nat \<Rightarrow> string list" where
  \<comment> \<open>the errors the calls \<open>c, ..., c + n - 1\<close> raised, in order\<close>
  "errors ext c n = List.map_filter (attempt_err ext) [c..<c + n]"

definition last_or :: "string option \<Rightarrow> string list \<Rightarrow> string option" where
  "last_or le es = (if es = [] then le else Some (last es))"

text \<open>
  Concrete scenarios for the extraction: a model whose first forced answer does not validate
  and whose second does, a model whose every call raises, and a budget of two attempts.
\<close>

definition msg_json :: "json \<Rightarrow> int \<Rightarrow> int \<Rightarrow> Message" where
  "msg_json obj i o' =
     \<lparr>content = [ToolUseBlock ''tu'' ''json'' obj], stop_reason = ToolUse,
      input_tokens = i, output_tokens = o'\<rparr>"

definition ext_invalid_then_valid :: Ext where
  "ext_invalid_then_valid =
     \<lparr>api = (\<lambda>n. if n = 0 then \<lparr>chunks = [], final = Inr (msg_json ''bad'' 7 2)\<rparr>
                  else \<lparr>chunks = [], final = Inr (msg_json ''good'' 8 3)\<rparr>),
      validate = (\<lambda>obj sch. obj = ''good'')\<rparr>"

definition ext_always_raises :: Ext where
  "ext_always_raises =
     \<lparr>api = (\<lambda>n. \<lparr>chunks = [], final = Inl ''boom''\<rparr>), validate = (\<lambda>obj sch. True)\<rparr>"

definition gen_params :: GenParams where
  "gen_params =
     \<lparr>go_messages = [(User, Plain ''Hello''), (Assistant, Blocks [TextBlock ''Hi there''])],
      go_schema = ''S'', go_maxRetries = 2, go_pendingId = ''p'',
      go_inputTokens = 5, go_outputTokens = 3, go_parentEventId = ''e''\<rparr>"



text \<open>
  A suspended turn of the conversation \<^verbatim>\<open>e\<close>: one tool call \<^verbatim>\<open>x\<close> is outstanding at turn 1.
\<close>

definition cs_one_tool :: CallState where
  "cs_one_tool =
     \<lparr>cs_messages = [(User, Plain ''Hello''),
                     (Assistant, Blocks [ToolUseBlock ''x'' ''lookup'' ''q''])],
      cs_toolCallIds = [''x''], cs_pendingId = ''p'',
      cs_toolDefinitions =
        [\<lparr>td_blockId = ''t'', td_name = ''lookup'', td_description = ''Looks up'', td_schema = ''S''\<rparr>],
      cs_force = ForceBool False, cs_params = [], cs_turn = 1, cs_maxRetries = 1,
      cs_schema = None, cs_originalEventId = ''e''\<rparr>"

definition suspended_world :: World where
  "suspended_world = storeCallState ''e'' cs_one_tool empty_world"

definition ext_hi :: Ext where
  \<comment> \<open>a model that answers every call with the final text of \<^const>\<open>msg_hi\<close>\<close>
  "ext_hi = \<lparr>api = (\<lambda>n. \<lparr>chunks = [TextStart], final = Inr msg_hi\<rparr>), validate = (\<lambda>obj sch. True)\<rparr>"

definition handler_input :: HandlerInput where
  "handler_input = \<lparr>in_apiKey = ''k'', in_blockId = ''b''\<rparr>"

text \<open>The arguments \<^verbatim>\<open>continueTurn\<close> hands to \<^verbatim>\<open>executeTurn\<close>.\<close>

definition resumed_args :: "string \<Rightarrow> CallState \<Rightarrow> (string \<rightharpoonup> string) \<Rightarrow> string \<Rightarrow> string \<Rightarrow> TurnArgs" where
  "resumed_args e cs toolResults key bid =
     \<lparr>pendingId = cs_pendingId cs, eventId = e, blockId = bid,
      messages = cs_messages cs
        @ [(User, Blocks (List.map_filter
                            (\<lambda>i. case toolResults i of
                                    None \<Rightarrow> None
                                  | Some result \<Rightarrow> Some (ToolResultBlock i result))
                            (cs_toolCallIds cs)))],
      toolDefinitions = cs_toolDefinitions cs, force = cs_force cs, params = cs_params cs,
      turn = cs_turn cs, apiKey = key, maxRetries = cs_maxRetries cs,
      schema = cs_schema cs\<rparr>"

definition received_results :: "CallState \<Rightarrow> World \<Rightarrow> World" where
  \<comment> \<open>the status update at the start of \<^verbatim>\<open>continueTurn\<close>\<close>
  "received_results cs w =
     updatePending (cs_pendingId cs)
       (''Received results from tool''
          @ (if length (cs_toolCallIds cs) = 1 then [] else ''s'') @ ''...'') w"

text \<open>The suspended turn of \<^const>\<open>suspended_world\<close> once the result of its tool call is stored.\<close>

definition complete_world :: World where
  "complete_world = storeToolResult ''e'' ''x'' ''42'' 1 suspended_world"

text \<open>A model whose answer stops for a reason that is neither the end of the turn nor a tool use.\<close>

definition ext_truncated :: Ext where
  "ext_truncated =
     \<lparr>api = (\<lambda>n. \<lparr>chunks = [], final = Inr \<lparr>content = [TextBlock ''Hi''], stop_reason = OtherStop,
                                          input_tokens = 5, output_tokens = 1\<rparr>\<rparr>),
      validate = (\<lambda>obj sch. True)\<rparr>"

text \<open>The world in which \<^verbatim>\<open>onInternalMessage\<close> aggregates: timeout cleared, fragment stored.\<close>

definition stored_world :: "string \<Rightarrow> string \<Rightarrow> string \<Rightarrow> CallState \<Rightarrow> World \<Rightarrow> World" where
  "stored_world e i r cs w = storeToolResult e i r (cs_turn cs) (clearTimeoutTimer e w)"

text \<open>
  The host, on a timeout: a timer that fires is no longer scheduled when \<^verbatim>\<open>onTimer\<close> runs.
\<close>

definition timer_fired :: "nat \<Rightarrow> World \<Rightarrow> World" where
  "timer_fired i w = w\<lparr>timers := filter (\<lambda>(j, e). j \<noteq> i) (timers w)\<rparr>"

text \<open>The identifiers of the timers scheduled for a conversation.\<close>

definition active_timers :: "World \<Rightarrow> string \<Rightarrow> nat list" where
  "active_timers w e = map fst (filter (\<lambda>(i, e'). e' = e) (timers w))"

text \<open>
  The invariant of the timers: identifiers are handed out once, and every scheduled timer is
  the one whose handle the store holds for its conversation.
\<close>

definition timers_ok :: "World \<Rightarrow> bool" where
  "timers_ok w =
     (distinct (map fst (timers w)) \<and>
      list_all (\<lambda>(i, e). i < next_timer w \<and> kv_get w (timer_key e) = Some (TimerV i)) (timers w))"

text \<open>A conversation whose timeout is registered: the store holds the handle of the one timer.\<close>

definition waiting_world :: World where
  "waiting_world = setTimeoutTimer ''e'' suspended_world"

section \<open>Tool names\<close>





section \<open>Numerals and keys\<close>

lemma map_of_upsert: "map_of (upsert k v kvs) = (map_of kvs)(k \<mapsto> v)"
  by (induction k v kvs rule: upsert.induct) (auto simp: fun_eq_iff)

lemma kv_get_kv_set: "kv_get (kv_set k v ttl w) k' = (if k' = k then Some v else kv_get w k')"
  by (simp add: kv_get_def kv_set_def effect_def map_of_upsert)

lemma isTimerLocked_setTimerLock: "isTimerLocked (setTimerLock e w) e"
  by (simp add: isTimerLocked_def setTimerLock_def kv_get_kv_set truthy_def)

lemma show_nat_1: "show_nat 1 = ''1''"
  by (simp add: show_nat.simps digit_char_def)

lemma digit_char_cases: "d < 10 \<Longrightarrow> digit_char d \<in> set ''0123456789''"
  unfolding digit_char_def by (rule nth_mem) simp

lemma digit_char_not_dash: "d < 10 \<Longrightarrow> digit_char d \<noteq> CHR ''-''"
  using digit_char_cases[of d] by auto

lemma show_nat_no_dash: "CHR ''-'' \<notin> set (show_nat n)"
proof (induction n rule: show_nat.induct)
  case (1 n)
  show ?case
  proof (cases "n < 10")
    case True
    then show ?thesis using digit_char_not_dash[of n] by (subst show_nat.simps) auto
  next
    case False
    with 1 digit_char_not_dash[of "n mod 10"] show ?thesis by (subst show_nat.simps) auto
  qed
qed

lemma digit_val_digit_char: "d < 10 \<Longrightarrow> digit_val (digit_char d) = d"
proof -
  assume "d < 10"
  then have "d \<in> {0,1,2,3,4,5,6,7,8,9}" by auto
  then show ?thesis by (auto simp: digit_val_def digit_char_def)
qed

lemma read_show_nat: "read_nat (show_nat n) = n"
proof (induction n rule: show_nat.induct)
  case (1 n)
  show ?case
  proof (cases "n < 10")
    case True
    then show ?thesis by (subst show_nat.simps) (simp add: read_nat_def digit_val_digit_char)
  next
    case False
    with 1 have "read_nat (show_nat (n div 10)) = n div 10" by simp
    with False show ?thesis
      by (subst show_nat.simps) (simp add: read_nat_def digit_val_digit_char)
  qed
qed

lemma show_nat_inj: "show_nat m = show_nat n \<Longrightarrow> m = n"
  by (metis read_show_nat)

lemma dash_prefix: "CHR ''-'' \<notin> set a \<Longrightarrow> CHR ''-'' \<notin> set b \<Longrightarrow> prefix (a @ ''-'') (b @ ''-'' @ c) \<Longrightarrow> a = b"
proof (induction a arbitrary: b)
  case Nil
  then show ?case by (cases b) auto
next
  case (Cons x xs)
  then show ?case by (cases b) auto
qed

lemma result_prefix_key: "prefix (result_prefix e t) (result_key e t' i) \<longleftrightarrow> t = t'"
proof
  assume "prefix (result_prefix e t) (result_key e t' i)"
  then have "prefix (show_nat t @ ''-'') (show_nat t' @ ''-'' @ i)"
    by (simp add: result_prefix_def result_key_def)
  then have "show_nat t = show_nat t'"
    using dash_prefix show_nat_no_dash by blast
  then show "t = t'" by (rule show_nat_inj)
next
  assume "t = t'"
  then show "prefix (result_prefix e t) (result_key e t' i)"
    by (simp add: result_prefix_def result_key_def)
qed

section \<open>Aggregation\<close>

lemma toolResults_of_snoc:
  "toolResults_of (xs @ [(k, v)]) =
     (case v of FragmentV i r \<Rightarrow> (toolResults_of xs)(i \<mapsto> r) | _ \<Rightarrow> toolResults_of xs)"
  by (simp add: toolResults_of_def split: KVValue.splits)

lemma result_key_inj: "result_key e t i = result_key e t j \<Longrightarrow> i = j"
  by (simp add: result_key_def)

lemma toolResults_of_keyed:
  assumes "distinct (map fst xs)"
    and "\<forall>(k, v) \<in> set xs. case v of FragmentV i r \<Rightarrow> k = result_key e t i | _ \<Rightarrow> False"
  shows "toolResults_of xs i =
           (case map_of xs (result_key e t i) of Some (FragmentV j r) \<Rightarrow> Some r | _ \<Rightarrow> None)"
  using assms
proof (induction xs rule: rev_induct)
  case Nil
  show ?case by (simp add: toolResults_of_def)
next
  case (snoc x xs)
  obtain k v where x: "x = (k, v)" by (cases x)
  from snoc.prems(2) x obtain j r where v: "v = FragmentV j r" and k: "k = result_key e t j"
    by (cases v) auto
  from snoc.prems x have fresh: "k \<notin> fst ` set xs" by auto
  then have none: "map_of xs k = None" by (simp add: map_of_eq_None_iff)
  have IH: "toolResults_of xs i =
      (case map_of xs (result_key e t i) of Some (FragmentV j r) \<Rightarrow> Some r | _ \<Rightarrow> None)"
    using snoc by auto
  show ?case
  proof (cases "i = j")
    case True
    with none k v show ?thesis
      unfolding x by (simp add: toolResults_of_snoc map_add_def)
  next
    case False
    then have "result_key e t i \<noteq> k" using k result_key_inj by blast
    with IH v False show ?thesis
      unfolding x by (simp add: toolResults_of_snoc map_add_def split: option.splits)
  qed
qed

lemma map_of_filter_fst:
  "map_of (filter (\<lambda>(k, v). P k) xs) k = (if P k then map_of xs k else None)"
  by (induction xs) auto

lemma loadToolResults_keyed:
  assumes "well_keyed w e t"
  shows "snd (loadToolResults w e t ids) i =
           (case kv_get w (result_key e t i) of Some (FragmentV j r) \<Rightarrow> Some r | _ \<Rightarrow> None)"
proof -
  let ?xs = "kv_list w (result_prefix e t)"
  have d: "distinct (map fst ?xs)"
    using assms by (simp add: well_keyed_def kv_list_def distinct_map_filter)
  have a: "\<forall>(k, v) \<in> set ?xs. case v of FragmentV i r \<Rightarrow> k = result_key e t i | _ \<Rightarrow> False"
    using assms by (auto simp: well_keyed_def kv_list_def list_all_iff)
  have "prefix (result_prefix e t) (result_key e t i)"
    by (simp add: result_prefix_key)
  then have "map_of ?xs (result_key e t i) = kv_get w (result_key e t i)"
    by (simp add: kv_list_def kv_get_def map_of_filter_fst)
  with toolResults_of_keyed[OF d a, of i] show ?thesis
    by (simp add: loadToolResults_def Let_def)
qed

lemma fst_upsert: "fst ` set (upsert k v kvs) = insert k (fst ` set kvs)"
  by (induction k v kvs rule: upsert.induct) auto

lemma distinct_upsert: "distinct (map fst kvs) \<Longrightarrow> distinct (map fst (upsert k v kvs))"
  by (induction k v kvs rule: upsert.induct) (auto simp: fst_upsert)

lemma set_upsert: "set (upsert k v kvs) \<subseteq> insert (k, v) (set kvs)"
  by (induction k v kvs rule: upsert.induct) auto

lemma well_keyed_storeToolResult:
  assumes "well_keyed w e t"
  shows "well_keyed (storeToolResult e i r t w) e t"
proof -
  have "distinct (map fst (upsert (result_key e t i) (FragmentV i r) (kv w)))"
    using assms by (simp add: well_keyed_def distinct_upsert)
  moreover have "list_all (\<lambda>(k, v). if prefix (result_prefix e t) k
                          then (case v of FragmentV i r \<Rightarrow> k = result_key e t i | _ \<Rightarrow> False)
                          else True) (upsert (result_key e t i) (FragmentV i r) (kv w))"
  proof -
    have "case v of FragmentV i r \<Rightarrow> k = result_key e t i | _ \<Rightarrow> False"
      if "(k, v) \<in> set (upsert (result_key e t i) (FragmentV i r) (kv w))"
        and "prefix (result_prefix e t) k" for k v
    proof -
      from that(1) set_upsert have "(k, v) = (result_key e t i, FragmentV i r) \<or> (k, v) \<in> set (kv w)"
        by fastforce
      then show ?thesis
      proof
        assume "(k, v) = (result_key e t i, FragmentV i r)"
        then show ?thesis by simp
      next
        assume "(k, v) \<in> set (kv w)"
        with assms that(2) show ?thesis
          by (auto simp: well_keyed_def list_all_iff)
      qed
    qed
    then show ?thesis
      by (auto simp: list_all_iff)
  qed
  ultimately show ?thesis
    by (simp add: well_keyed_def storeToolResult_def kv_set_def effect_def)
qed

lemma kv_get_storeToolResult:
  "kv_get (storeToolResult e i r t w) k = (if k = result_key e t i then Some (FragmentV i r) else kv_get w k)"
  by (simp add: storeToolResult_def kv_get_kv_set)

lemma well_keyed_empty: "well_keyed empty_world e t"
  by (simp add: well_keyed_def empty_world_def)

lemma kv_list_upsert_other:
  "\<not> prefix p k \<Longrightarrow> filter (\<lambda>(k, v). prefix p k) (upsert k v kvs) = filter (\<lambda>(k, v). prefix p k) kvs"
  by (induction k v kvs rule: upsert.induct) auto

lemma loadToolResults_other_turn:
  assumes "t' \<noteq> t"
  shows "loadToolResults (storeToolResult e i r t' w) e t ids = loadToolResults w e t ids"
proof -
  have "\<not> prefix (result_prefix e t) (result_key e t' i)"
    using assms by (simp add: result_prefix_key)
  then show ?thesis
    by (simp add: loadToolResults_def storeToolResult_def kv_set_def effect_def kv_list_def kv_list_upsert_other)
qed

lemma loadToolResults_complete_iff:
  assumes "well_keyed w e t"
  shows "fst (loadToolResults w e t ids) \<longleftrightarrow>
           (\<forall>i \<in> set ids. \<exists>r. kv_get w (result_key e t i) = Some (FragmentV i r))"
proof -
  have wk: "kv_get w (result_key e t i) = Some (FragmentV j r) \<Longrightarrow> j = i" for i j r
  proof -
    assume g: "kv_get w (result_key e t i) = Some (FragmentV j r)"
    then have "(result_key e t i, FragmentV j r) \<in> set (kv w)"
      by (simp add: kv_get_def map_of_SomeD)
    with assms have "result_key e t i = result_key e t j"
      by (auto simp: well_keyed_def list_all_iff result_prefix_key)
    then show "j = i" using result_key_inj by metis
  qed
  have pt: "snd (loadToolResults w e t ids) i \<noteq> None \<longleftrightarrow>
            (\<exists>r. kv_get w (result_key e t i) = Some (FragmentV i r))" for i
  proof (cases "kv_get w (result_key e t i)")
    case None
    then show ?thesis by (simp add: loadToolResults_keyed[OF assms])
  next
    case (Some y)
    then show ?thesis
      using wk[of i] by (cases y) (auto simp: loadToolResults_keyed[OF assms])
  qed
  have "fst (loadToolResults w e t ids) \<longleftrightarrow> (\<forall>i \<in> set ids. snd (loadToolResults w e t ids) i \<noteq> None)"
    by (simp add: loadToolResults_def Let_def list_all_iff)
  with pt show ?thesis by simp
qed

section \<open>What the turn executor leaves behind\<close>

lemma durable_effect [simp]: "durable (effect x w) = durable w"
  by (simp add: durable_def effect_def)

lemma durable_updatePending [simp]: "durable (updatePending p d w) = durable w"
  by (simp add: updatePending_def)

lemma durable_cancelPending [simp]: "durable (cancelPending p d w) = durable w"
  by (simp add: cancelPending_def)

lemma durable_emitResult [simp]: "durable (emitResult p t ob i o' pe w) = durable w"
  by (simp add: emitResult_def)

lemma durable_streamMessage [simp]: "durable (snd (streamMessage ext ms ts f w)) = durable w"
  by (simp add: streamMessage_def durable_def effect_def)

lemma durable_sync [simp]: "durable (syncPendingEventWithStream p l evs w) = durable w"
  by (induction p l evs w rule: syncPendingEventWithStream.induct) (auto split: option.splits)

lemma durable_sends [simp]: "durable (foldl (\<lambda>w' c. sendToolCall a m c w') w cs) = durable w"
  by (induction cs arbitrary: w) (auto simp: sendToolCall_def)

lemma durable_generateObject_failed [simp]: "durable (snd (generateObject_failed p le w)) = durable w"
  by (simp add: generateObject_failed_def split: option.splits)

lemma durable_generateObject_loop [simp]:
  "durable (snd (generateObject_loop ext ft p rc i o' le w)) = durable w"
proof (induction ext ft p rc i o' le w rule: generateObject_loop.induct)
  case (1 ext ft p rc i o' le w)
  show ?case
    apply (subst generateObject_loop.simps)
    apply (auto simp: Let_def split: sum.splits option.splits)
    using 1 apply (auto simp: Let_def)
    done
qed

lemma durable_cong_kv_set: "durable w1 = durable w2 \<Longrightarrow> durable (kv_set k v t w1) = durable (kv_set k v t w2)"
  by (simp add: durable_def kv_set_def effect_def)

lemma durable_cong_kv_delete: "durable w1 = durable w2 \<Longrightarrow> durable (kv_delete ks w1) = durable (kv_delete ks w2)"
  by (simp add: durable_def kv_delete_def effect_def)

lemma durable_cong_setTimeoutTimer: "durable w1 = durable w2 \<Longrightarrow> durable (setTimeoutTimer e w1) = durable (setTimeoutTimer e w2)"
  by (simp add: durable_def setTimeoutTimer_def timers_set_def kv_set_def effect_def Let_def)

lemma turn_outcome_cong: "durable w1 = durable w \<Longrightarrow> turn_outcome e w1 w' \<Longrightarrow> turn_outcome e w w'"
  unfolding turn_outcome_def
  by (metis durable_cong_kv_set durable_cong_kv_delete durable_cong_setTimeoutTimer storeCallState_def deleteCallState_def)

lemma handleModelResponse_outcome: "turn_outcome (eventId a) w (snd (handleModelResponse ext a m w))"
proof (cases "stop_reason m")
  case EndTurn
  then show ?thesis
    by (auto simp: handleModelResponse_def turn_outcome_def generateObject_def
        split: option.splits ContentBlock.splits)
next
  case ToolUse
  have "durable (snd (handleModelResponse ext a m w)) =
        durable (setTimeoutTimer (eventId a) (storeCallState (eventId a)
          \<lparr>cs_messages = messages a @ [(Assistant, Blocks (content m))],
           cs_toolCallIds = map tool_use_id (filter is_tool_use (content m)),
           cs_pendingId = pendingId a, cs_toolDefinitions = toolDefinitions a,
           cs_force = force a, cs_params = params a, cs_turn = turn a + 1,
           cs_maxRetries = maxRetries a, cs_schema = schema a,
           cs_originalEventId = eventId a\<rparr> w))"
    using ToolUse
    by (auto simp: handleModelResponse_def Let_def storeCallState_def
        intro!: durable_cong_setTimeoutTimer durable_cong_kv_set)
  then show ?thesis unfolding turn_outcome_def by blast
next
  case OtherStop
  then show ?thesis
    by (auto simp: handleModelResponse_def turn_outcome_def deleteCallState_def
        intro!: durable_cong_kv_delete)
qed

lemma executeTurn_failed_outcome: "turn_outcome (eventId a) w (snd (executeTurn_failed a le w))"
  by (auto simp: executeTurn_failed_def turn_outcome_def Let_def deleteCallState_def
      intro!: durable_cong_kv_delete)

lemma executeTurn_loop_outcome: "turn_outcome (eventId a) w (snd (executeTurn_loop ext a rc le w))"
proof (induction ext a rc le w rule: executeTurn_loop.induct)
  case (1 ext a rc le w)
  show ?case
  proof (cases "int rc < maxRetries a")
    case False
    then show ?thesis
      by (subst executeTurn_loop.simps) (simp add: executeTurn_failed_outcome)
  next
    case True
    let ?w1 = "if 0 < rc then updatePending (pendingId a)
                 (''Retrying API call... (attempt '' @ show_nat (rc + 1) @ '')'') w else w"
    let ?r = "streamMessage ext (messages a) (fst (processToolDefinitions (toolDefinitions a))) (force a) ?w1"
    let ?w3 = "syncPendingEventWithStream (pendingId a) None (chunks (fst ?r)) (snd ?r)"
    have d3: "durable ?w3 = durable w" by simp
    show ?thesis
    proof (cases "final (fst ?r)")
      case (Inr m)
      have "turn_outcome (eventId a) ?w3 (snd (handleModelResponse ext a m ?w3))"
        by (rule handleModelResponse_outcome)
      with d3 have "turn_outcome (eventId a) w (snd (handleModelResponse ext a m ?w3))"
        by (rule turn_outcome_cong)
      with True Inr show ?thesis
        by (subst executeTurn_loop.simps) (simp add: Let_def)
    next
      case (Inl err)
      show ?thesis
      proof (cases "\<not> isRetryable err \<or> maxRetries a \<le> int (rc + 1)")
        case stop: True
        have "turn_outcome (eventId a) ?w3 (snd (executeTurn_failed a (Some err) ?w3))"
          by (rule executeTurn_failed_outcome)
        with d3 have "turn_outcome (eventId a) w (snd (executeTurn_failed a (Some err) ?w3))"
          by (rule turn_outcome_cong)
        with True Inl stop show ?thesis
          by (subst executeTurn_loop.simps) (simp add: Let_def)
      next
        case go: False
        let ?w4 = "effect (Sleep (backoff_delay (rc + 1))) ?w3"
        have "turn_outcome (eventId a) ?w4 (snd (executeTurn_loop ext a (rc + 1) (Some err) ?w4))"
          using "1.IH"[OF True refl refl refl Inl go] by simp
        moreover have "durable ?w4 = durable w" by simp
        ultimately have "turn_outcome (eventId a) w (snd (executeTurn_loop ext a (rc + 1) (Some err) ?w4))"
          by (rule turn_outcome_cong[rotated])
        with True Inl go show ?thesis
          by (subst executeTurn_loop.simps) (simp add: Let_def)
      qed
    qed
  qed
qed

section \<open>Fragment storage\<close>

text \<open>
  C6, as the claim states it, fails: a second store to the same (eventId, turn, toolCallId)
  with another payload changes what aggregation returns for it.
\<close>

theorem storeToolResult_overwrites_counterexample:
  "snd (loadToolResults
          (storeToolResult ''e'' ''x'' ''b'' 1 (storeToolResult ''e'' ''x'' ''a'' 1 empty_world))
          ''e'' 1 [''x'']) ''x''
   \<noteq> snd (loadToolResults (storeToolResult ''e'' ''x'' ''a'' 1 empty_world) ''e'' 1 [''x'']) ''x''"
  by (simp add: loadToolResults_def storeToolResult_def kv_set_def effect_def empty_world_def
      kv_list_def result_key_def result_prefix_def toolResults_of_def show_nat_1)

text \<open>
  C6, amended. Fragment storage is last-write-wins: in a well keyed store, after a second store
  to the same (eventId, turn, toolCallId), aggregation returns the payload of the second store.
\<close>

theorem storeToolResult_last_write_wins:
  assumes "well_keyed w e t"
  shows "snd (loadToolResults (storeToolResult e i r2 t (storeToolResult e i r1 t w)) e t ids) i
           = Some r2"
  using assms
  by (simp add: loadToolResults_keyed well_keyed_storeToolResult kv_get_storeToolResult)

theorem storeToolResult_last_write_wins_witness:
  "well_keyed empty_world ''e'' 1 \<and>
   snd (loadToolResults
          (storeToolResult ''e'' ''x'' ''b'' 1 (storeToolResult ''e'' ''x'' ''a'' 1 empty_world))
          ''e'' 1 [''x'']) ''x'' = Some ''b''"
  using storeToolResult_last_write_wins[of empty_world "''e''" 1 "''x''" "''b''" "''a''" "[''x'']"]
  by (simp add: well_keyed_empty)

text \<open>
  C4, at the input where the code leaves the claim. The store holds one fragment, written for
  the conversation \<^verbatim>\<open>e-1\<close> at turn 2; aggregation for the conversation \<^verbatim>\<open>e\<close> at turn 1 lists the
  prefix \<^verbatim>\<open>result-e-1-\<close>, finds that fragment, reports completeness and returns its payload.
\<close>

theorem loadToolResults_foreign_fragment:
  "fst (loadToolResults (storeToolResult ''e-1'' ''x'' ''r'' 2 empty_world) ''e'' 1 [''x''])
   \<and> snd (loadToolResults (storeToolResult ''e-1'' ''x'' ''r'' 2 empty_world) ''e'' 1 [''x'']) ''x''
       = Some ''r''"
  by (simp add: loadToolResults_def storeToolResult_def kv_set_def effect_def empty_world_def
      kv_list_def result_key_def result_prefix_def toolResults_of_def show_nat.simps digit_char_def)

section \<open>The race guard\<close>

text \<open>
  C5. While the lock of a conversation is held, the handler of tool results returns at once
  and leaves the world as it was: no fragment stored, no timer touched, no effect logged.
\<close>

theorem onInternalMessage_locked_noop:
  "isTimerLocked w e \<Longrightarrow> onInternalMessage ext inp result e toolCallId w = (Inr (), w)"
  by (simp add: onInternalMessage_def)

theorem onInternalMessage_locked_noop_witness:
  "isTimerLocked (setTimerLock ''e'' suspended_world) ''e'' \<and>
   onInternalMessage ext_hi handler_input ''42'' ''e'' ''x'' (setTimerLock ''e'' suspended_world)
     = (Inr (), setTimerLock ''e'' suspended_world)"
  using onInternalMessage_locked_noop[of "setTimerLock ''e'' suspended_world" "''e''" ext_hi
      handler_input "''42''" "''x''"]
  by (simp add: isTimerLocked_setTimerLock)

section \<open>Retry with back-off\<close>

lemma map_filter_snoc: "List.map_filter f (xs @ [x]) = List.map_filter f xs @ (case f x of Some y \<Rightarrow> [y] | None \<Rightarrow> [])"
  by (simp add: List.map_filter_def split: option.splits)

lemma sleeps_effect: "sleeps (effect x w) = sleeps w @ (case x of Sleep d \<Rightarrow> [d] | _ \<Rightarrow> [])"
  by (simp add: sleeps_def effect_def map_filter_snoc split: Effect.splits)

lemma cancels_effect: "cancels (effect x w) = cancels w @ (case x of CancelPending p d \<Rightarrow> [(p, d)] | _ \<Rightarrow> [])"
  by (simp add: cancels_def effect_def map_filter_snoc split: Effect.splits)

lemma emits_effect: "emits (effect x w) = emits w @ (case x of Emit t ob i o' p pe \<Rightarrow> [x] | _ \<Rightarrow> [])"
  by (simp add: emits_def effect_def split: Effect.splits)

lemma api_calls_effect [simp]: "api_calls (effect x w) = api_calls w"
  by (simp add: effect_def)

lemma quiet_effect: "quiet (effect x w) =
   (kv w, timers w, next_timer w,
    cancels w @ (case x of CancelPending p d \<Rightarrow> [(p, d)] | _ \<Rightarrow> []),
    emits w @ (case x of Emit t ob i o' p pe \<Rightarrow> [x] | _ \<Rightarrow> []))"
  by (simp add: quiet_def cancels_effect emits_effect) (simp add: effect_def)

lemma quiet_sleep [simp]: "quiet (effect (Sleep d) w) = quiet w"
  by (simp add: quiet_effect) (simp add: quiet_def)

lemma updatePending_obs [simp]:
  "quiet (updatePending p d w) = quiet w" "sleeps (updatePending p d w) = sleeps w"
  "api_calls (updatePending p d w) = api_calls w"
  by (simp_all add: updatePending_def quiet_effect sleeps_effect) (simp add: quiet_def)

lemma streamMessage_obs [simp]:
  "quiet (snd (streamMessage ext ms ts f w)) = quiet w"
  "sleeps (snd (streamMessage ext ms ts f w)) = sleeps w"
  "api_calls (snd (streamMessage ext ms ts f w)) = Suc (api_calls w)"
  "fst (streamMessage ext ms ts f w) = api ext (api_calls w)"
  by (simp_all add: streamMessage_def quiet_effect sleeps_effect)
     (simp add: quiet_def cancels_def emits_def sleeps_def)+

lemma sync_obs [simp]:
  "quiet (syncPendingEventWithStream p l evs w) = quiet w"
  "sleeps (syncPendingEventWithStream p l evs w) = sleeps w"
  "api_calls (syncPendingEventWithStream p l evs w) = api_calls w"
  by (induction p l evs w rule: syncPendingEventWithStream.induct) (auto split: option.splits)

lemma attempt_world_obs [simp]:
  "quiet (attempt_world ext a rc w) = quiet w"
  "sleeps (attempt_world ext a rc w) = sleeps w"
  "api_calls (attempt_world ext a rc w) = Suc (api_calls w)"
  by (simp_all add: attempt_world_def)

lemma executeTurn_loop_step:
  "executeTurn_loop ext a rc le w =
     (if int rc < maxRetries a
      then (case final (api ext (api_calls w)) of
              Inr message \<Rightarrow> handleModelResponse ext a message (attempt_world ext a rc w)
            | Inl err \<Rightarrow>
                if \<not> isRetryable err \<or> maxRetries a \<le> int (rc + 1)
                then executeTurn_failed a (Some err) (attempt_world ext a rc w)
                else executeTurn_loop ext a (rc + 1) (Some err)
                       (effect (Sleep (backoff_delay (rc + 1))) (attempt_world ext a rc w)))
      else executeTurn_failed a le w)"
  by (subst executeTurn_loop.simps) (simp add: Let_def attempt_world_def split: sum.splits)

lemma retries:
  assumes "\<forall>i<N. \<exists>err. final (api ext (api_calls w + i)) = Inl err \<and> isRetryable err"
    and "int (rc + N) < maxRetries a"
  shows "\<exists>w' le'. executeTurn_loop ext a rc le w = executeTurn_loop ext a (rc + N) le' w'
           \<and> api_calls w' = api_calls w + N
           \<and> sleeps w' = sleeps w @ map backoff_delay [rc + 1..<rc + N + 1]
           \<and> quiet w' = quiet w"
  using assms
proof (induction N arbitrary: rc le w)
  case 0
  show ?case by auto
next
  case (Suc N)
  from Suc.prems(1) obtain err where e0: "final (api ext (api_calls w)) = Inl err" "isRetryable err"
    by force
  let ?w1 = "effect (Sleep (backoff_delay (rc + 1))) (attempt_world ext a rc w)"
  have step: "executeTurn_loop ext a rc le w = executeTurn_loop ext a (rc + 1) (Some err) ?w1"
    using e0 Suc.prems(2) by (subst executeTurn_loop_step) simp
  have c1: "api_calls ?w1 = Suc (api_calls w)" by simp
  have "\<forall>i<N. \<exists>err. final (api ext (api_calls ?w1 + i)) = Inl err \<and> isRetryable err"
  proof (intro allI impI)
    fix i assume "i < N"
    then have "Suc i < Suc N" by simp
    with Suc.prems(1) have "\<exists>err. final (api ext (api_calls w + Suc i)) = Inl err \<and> isRetryable err"
      by blast
    then show "\<exists>err. final (api ext (api_calls ?w1 + i)) = Inl err \<and> isRetryable err"
      by (simp add: c1)
  qed
  moreover have "int (rc + 1 + N) < maxRetries a" using Suc.prems(2) by simp
  ultimately obtain w' le' where IH:
    "executeTurn_loop ext a (rc + 1) (Some err) ?w1 = executeTurn_loop ext a (rc + 1 + N) le' w'"
    "api_calls w' = api_calls ?w1 + N"
    "sleeps w' = sleeps ?w1 @ map backoff_delay [rc + 1 + 1..<rc + 1 + N + 1]"
    "quiet w' = quiet ?w1"
    using Suc.IH[of ?w1 "rc + 1" "Some err"] by blast
  have s1: "sleeps ?w1 = sleeps w @ [backoff_delay (rc + 1)]"
    by (simp add: sleeps_effect)
  have q1: "quiet ?w1 = quiet w"
    by simp
  have "[rc + 1..<rc + Suc N + 1] = (rc + 1) # [rc + 1 + 1..<rc + 1 + N + 1]"
    by (simp add: upt_conv_Cons)
  with IH step s1 q1 c1 show ?case
    by (intro exI[of _ w'] exI[of _ le']) simp
qed

lemma fails_after:
  assumes "\<forall>i<N. \<exists>err. final (api ext (api_calls w + i)) = Inl err \<and> isRetryable err"
    and "int (rc + N) < maxRetries a"
    and "final (api ext (api_calls w + N)) = Inl err"
    and "\<not> isRetryable err \<or> maxRetries a \<le> int (rc + N + 1)"
  shows "\<exists>w'. executeTurn_loop ext a rc le w = executeTurn_failed a (Some err) w'
           \<and> api_calls w' = api_calls w + N + 1
           \<and> sleeps w' = sleeps w @ map backoff_delay [rc + 1..<rc + N + 1]
           \<and> quiet w' = quiet w"
proof -
  from retries[OF assms(1,2), of le] obtain w1 le1 where r:
    "executeTurn_loop ext a rc le w = executeTurn_loop ext a (rc + N) le1 w1"
    "api_calls w1 = api_calls w + N"
    "sleeps w1 = sleeps w @ map backoff_delay [rc + 1..<rc + N + 1]"
    "quiet w1 = quiet w"
    by blast
  have "executeTurn_loop ext a (rc + N) le1 w1 = executeTurn_failed a (Some err) (attempt_world ext a (rc + N) w1)"
    using assms(2,3,4) r(2) by (subst executeTurn_loop_step) auto
  with r show ?thesis
    by (intro exI[of _ "attempt_world ext a (rc + N) w1"]) simp
qed

lemma succeeds_after:
  assumes "\<forall>i<N. \<exists>err. final (api ext (api_calls w + i)) = Inl err \<and> isRetryable err"
    and "int (rc + N) < maxRetries a"
    and "final (api ext (api_calls w + N)) = Inr message"
  shows "\<exists>w'. executeTurn_loop ext a rc le w = handleModelResponse ext a message w'
           \<and> api_calls w' = api_calls w + N + 1
           \<and> sleeps w' = sleeps w @ map backoff_delay [rc + 1..<rc + N + 1]
           \<and> quiet w' = quiet w"
proof -
  from retries[OF assms(1,2), of le] obtain w1 le1 where r:
    "executeTurn_loop ext a rc le w = executeTurn_loop ext a (rc + N) le1 w1"
    "api_calls w1 = api_calls w + N"
    "sleeps w1 = sleeps w @ map backoff_delay [rc + 1..<rc + N + 1]"
    "quiet w1 = quiet w"
    by blast
  have "executeTurn_loop ext a (rc + N) le1 w1 = handleModelResponse ext a message (attempt_world ext a (rc + N) w1)"
    using assms(2,3) r(2) by (subst executeTurn_loop_step) auto
  with r show ?thesis
    by (intro exI[of _ "attempt_world ext a (rc + N) w1"]) simp
qed

lemma kv_update_obs [simp]:
  "sleeps (w\<lparr>kv := x\<rparr>) = sleeps w" "cancels (w\<lparr>kv := x\<rparr>) = cancels w"
  "emits (w\<lparr>kv := x\<rparr>) = emits w"
  by (simp_all add: sleeps_def cancels_def emits_def)

lemma kv_delete_obs [simp]:
  "sleeps (kv_delete ks w) = sleeps w" "cancels (kv_delete ks w) = cancels w"
  "emits (kv_delete ks w) = emits w" "api_calls (kv_delete ks w) = api_calls w"
  by (simp_all add: kv_delete_def sleeps_effect cancels_effect emits_effect)

lemma kv_get_kv_delete: "kv_get (kv_delete ks w) k = (if k \<in> set ks then None else kv_get w k)"
  by (simp add: kv_get_def kv_delete_def effect_def map_of_filter_fst)

lemma cancelPending_obs [simp]:
  "sleeps (cancelPending p d w) = sleeps w" "cancels (cancelPending p d w) = cancels w @ [(p, d)]"
  "emits (cancelPending p d w) = emits w" "api_calls (cancelPending p d w) = api_calls w"
  by (simp_all add: cancelPending_def sleeps_effect cancels_effect emits_effect)

lemma executeTurn_failed_result:
  "fst (executeTurn_failed a (Some err) w) = Inl err"
  "api_calls (snd (executeTurn_failed a le w)) = api_calls w"
  "sleeps (snd (executeTurn_failed a le w)) = sleeps w"
  "cancels (snd (executeTurn_failed a (Some err) w)) =
     cancels w @ [(pendingId a, ''API call failed: '' @ (if err = [] then ''Unknown error'' else err))]"
  "kv_get (snd (executeTurn_failed a le w)) (call_key (eventId a)) = None"
  by (simp_all add: executeTurn_failed_def Let_def deleteCallState_def kv_get_kv_delete)

lemma handleModelResponse_text:
  assumes "stop_reason message = EndTurn" "schema a = None"
    "find is_text (rev (content message)) = Some (TextBlock t)" "t \<noteq> []"
  shows "handleModelResponse ext a message w =
           (Inr (), emitResult (pendingId a) t None (input_tokens message) (output_tokens message) (eventId a) w)"
  using assms by (simp add: handleModelResponse_def)

lemma not_retryable_unauthorized: "\<not> isRetryable ''invalid x-api-key''"
  by code_simp

lemma empty_world_obs [simp]:
  "api_calls empty_world = 0" "sleeps empty_world = []" "emits empty_world = []"
  "cancels empty_world = []" "kv empty_world = []" "timers empty_world = []"
  by (simp_all add: empty_world_def sleeps_def emits_def cancels_def List.map_filter_def)

section \<open>Structured object extraction\<close>

lemma go_attempt_world_obs [simp]:
  "quiet (go_attempt_world ext p rc w) = quiet w"
  "sleeps (go_attempt_world ext p rc w) = sleeps w"
  "api_calls (go_attempt_world ext p rc w) = Suc (api_calls w)"
  by (simp_all add: go_attempt_world_def)

lemma generateObject_loop_done:
  "\<not> int rc < go_maxRetries p \<Longrightarrow>
     generateObject_loop ext ft p rc i o' le w = generateObject_failed p le w"
  by (subst generateObject_loop.simps) simp

lemma generateObject_loop_step:
  "int rc < go_maxRetries p \<Longrightarrow>
   generateObject_loop ext ft p rc i o' le w =
     (case attempt_obj ext (go_schema p) (api_calls w) of
        Some obj \<Rightarrow>
          (Inr (), emitResult (go_pendingId p) ft (Some obj)
                     (i + attempt_in ext (api_calls w)) (o' + attempt_out ext (api_calls w))
                     (go_parentEventId p) (go_attempt_world ext p rc w))
      | None \<Rightarrow>
          generateObject_loop ext ft p (rc + 1)
            (i + attempt_in ext (api_calls w)) (o' + attempt_out ext (api_calls w))
            (case attempt_err ext (api_calls w) of Some e \<Rightarrow> Some e | None \<Rightarrow> le)
            (go_attempt_world ext p rc w))"
  apply (subst generateObject_loop.simps)
  apply (cases "final (api ext (api_calls w))")
   apply (simp_all add: Let_def attempt_obj_def attempt_in_def attempt_out_def attempt_err_def
      go_attempt_world_def generateObject_loop_done split: option.splits)
  done

lemma errors_Suc:
  "errors ext c (Suc n) = (case attempt_err ext c of Some e \<Rightarrow> [e] | None \<Rightarrow> []) @ errors ext (Suc c) n"
proof -
  have "[c..<c + Suc n] = c # [Suc c..<Suc c + n]"
    by (simp add: upt_conv_Cons)
  then show ?thesis
    by (simp add: errors_def map_filter_simps split: option.splits)
qed

lemma last_or_step:
  "last_or (case x of Some e \<Rightarrow> Some e | None \<Rightarrow> le) es
     = last_or le ((case x of Some e \<Rightarrow> [e] | None \<Rightarrow> []) @ es)"
  by (cases x) (simp_all add: last_or_def)

lemma skipped:
  assumes "\<forall>j<K. attempt_obj ext (go_schema p) (api_calls w + j) = None"
    and "int (rc + K) \<le> go_maxRetries p"
  shows "\<exists>w'. generateObject_loop ext ft p rc i o' le w =
             generateObject_loop ext ft p (rc + K)
               (i + (\<Sum>j<K. attempt_in ext (api_calls w + j)))
               (o' + (\<Sum>j<K. attempt_out ext (api_calls w + j)))
               (last_or le (errors ext (api_calls w) K)) w'
           \<and> api_calls w' = api_calls w + K \<and> quiet w' = quiet w"
  using assms
proof (induction K arbitrary: rc i o' le w)
  case 0
  show ?case by (intro exI[of _ w]) (simp add: errors_def List.map_filter_def last_or_def)
next
  case (Suc K)
  let ?c = "api_calls w"
  let ?w1 = "go_attempt_world ext p rc w"
  let ?le1 = "case attempt_err ext ?c of Some e \<Rightarrow> Some e | None \<Rightarrow> le"
  from Suc.prems(1) have none: "attempt_obj ext (go_schema p) ?c = None" by force
  have lt: "int rc < go_maxRetries p" using Suc.prems(2) by simp
  have step: "generateObject_loop ext ft p rc i o' le w =
      generateObject_loop ext ft p (rc + 1) (i + attempt_in ext ?c) (o' + attempt_out ext ?c) ?le1 ?w1"
    using none by (simp add: generateObject_loop_step[OF lt])
  have c1: "api_calls ?w1 = Suc ?c" by simp
  have "\<forall>j<K. attempt_obj ext (go_schema p) (api_calls ?w1 + j) = None"
  proof (intro allI impI)
    fix j assume "j < K"
    then have "Suc j < Suc K" by simp
    with Suc.prems(1) have "attempt_obj ext (go_schema p) (?c + Suc j) = None" by blast
    then show "attempt_obj ext (go_schema p) (api_calls ?w1 + j) = None" by (simp add: c1)
  qed
  moreover have "int (rc + 1 + K) \<le> go_maxRetries p" using Suc.prems(2) by simp
  ultimately obtain w' where IH:
    "generateObject_loop ext ft p (rc + 1) (i + attempt_in ext ?c) (o' + attempt_out ext ?c) ?le1 ?w1 =
       generateObject_loop ext ft p (rc + 1 + K)
         (i + attempt_in ext ?c + (\<Sum>j<K. attempt_in ext (api_calls ?w1 + j)))
         (o' + attempt_out ext ?c + (\<Sum>j<K. attempt_out ext (api_calls ?w1 + j)))
         (last_or ?le1 (errors ext (api_calls ?w1) K)) w'"
    "api_calls w' = api_calls ?w1 + K" "quiet w' = quiet ?w1"
    using Suc.IH[of ?w1 "rc + 1" "i + attempt_in ext ?c" "o' + attempt_out ext ?c" ?le1] by blast
  have s_in: "(\<Sum>j<Suc K. attempt_in ext (?c + j)) = attempt_in ext ?c + (\<Sum>j<K. attempt_in ext (Suc ?c + j))"
    using sum.lessThan_Suc_shift[of "\<lambda>j. attempt_in ext (?c + j)" K] by (simp del: sum.lessThan_Suc)
  have s_out: "(\<Sum>j<Suc K. attempt_out ext (?c + j)) = attempt_out ext ?c + (\<Sum>j<K. attempt_out ext (Suc ?c + j))"
    using sum.lessThan_Suc_shift[of "\<lambda>j. attempt_out ext (?c + j)" K] by (simp del: sum.lessThan_Suc)
  have le': "last_or ?le1 (errors ext (Suc ?c) K) = last_or le (errors ext ?c (Suc K))"
    by (simp add: errors_Suc last_or_step)
  show ?case
    apply (rule exI[of _ w'])
    using IH step c1 le'
    apply (simp only: s_in s_out)
    apply (simp add: add.assoc)
    done
qed

lemma emitResult_obs [simp]:
  "emits (emitResult pid t ob i o' pe w) = emits w @ [Emit t ob i o' pid pe]"
  "cancels (emitResult pid t ob i o' pe w) = cancels w"
  "api_calls (emitResult pid t ob i o' pe w) = api_calls w"
  by (simp_all add: emitResult_def emits_effect cancels_effect)

lemma quiet_cancels_emits: "quiet w' = quiet w \<Longrightarrow> cancels w' = cancels w \<and> emits w' = emits w"
  by (simp add: quiet_def)

lemma go_success:
  assumes "int k < go_maxRetries p"
    and "attempt_obj ext (go_schema p) (api_calls w + k) = Some obj"
    and "\<forall>j<k. attempt_obj ext (go_schema p) (api_calls w + j) = None"
  shows "fst (generateObject ext ft p w) = Inr ()"
    and "api_calls (snd (generateObject ext ft p w)) = api_calls w + k + 1"
    and "emits (snd (generateObject ext ft p w)) =
           emits w @ [Emit ft (Some obj)
                        (go_inputTokens p + (\<Sum>j\<le>k. attempt_in ext (api_calls w + j)))
                        (go_outputTokens p + (\<Sum>j\<le>k. attempt_out ext (api_calls w + j)))
                        (go_pendingId p) (go_parentEventId p)]"
    and "cancels (snd (generateObject ext ft p w)) = cancels w"
proof -
  have "int (0 + k) \<le> go_maxRetries p" using assms(1) by simp
  from skipped[OF assms(3) this, of ft "go_inputTokens p" "go_outputTokens p" None]
  obtain w' where w': "generateObject ext ft p w =
             generateObject_loop ext ft p k
               (go_inputTokens p + (\<Sum>j<k. attempt_in ext (api_calls w + j)))
               (go_outputTokens p + (\<Sum>j<k. attempt_out ext (api_calls w + j)))
               (last_or None (errors ext (api_calls w) k)) w'"
    "api_calls w' = api_calls w + k" "quiet w' = quiet w"
    unfolding generateObject_def by auto
  have atMost: "(\<Sum>j\<le>k. f j) = (\<Sum>j<k. f j) + f k" for f :: "nat \<Rightarrow> int"
    by (simp add: lessThan_Suc_atMost[symmetric])
  have res: "generateObject ext ft p w =
     (Inr (), emitResult (go_pendingId p) ft (Some obj)
                (go_inputTokens p + (\<Sum>j\<le>k. attempt_in ext (api_calls w + j)))
                (go_outputTokens p + (\<Sum>j\<le>k. attempt_out ext (api_calls w + j)))
                (go_parentEventId p) (go_attempt_world ext p k w'))"
    using assms(2) w'(2)
    by (simp add: w'(1) generateObject_loop_step[OF assms(1)] atMost add.assoc)
  from quiet_cancels_emits[OF w'(3)] have ce: "cancels w' = cancels w" "emits w' = emits w"
    by simp_all
  have q: "quiet (go_attempt_world ext p k w') = quiet w'" by simp
  from quiet_cancels_emits[OF q] ce
  have ce': "cancels (go_attempt_world ext p k w') = cancels w" "emits (go_attempt_world ext p k w') = emits w"
    by simp_all
  show "fst (generateObject ext ft p w) = Inr ()" by (simp add: res)
  show "api_calls (snd (generateObject ext ft p w)) = api_calls w + k + 1" by (simp add: res w'(2))
  show "emits (snd (generateObject ext ft p w)) =
           emits w @ [Emit ft (Some obj)
                        (go_inputTokens p + (\<Sum>j\<le>k. attempt_in ext (api_calls w + j)))
                        (go_outputTokens p + (\<Sum>j\<le>k. attempt_out ext (api_calls w + j)))
                        (go_pendingId p) (go_parentEventId p)]"
    by (simp add: res ce')
  show "cancels (snd (generateObject ext ft p w)) = cancels w" by (simp add: res ce')
qed

lemma go_exhausted:
  assumes "\<forall>j. int j < go_maxRetries p \<longrightarrow> attempt_obj ext (go_schema p) (api_calls w + j) = None"
  shows "\<exists>w'. generateObject ext ft p w =
            generateObject_failed p (last_or None (errors ext (api_calls w) (nat (go_maxRetries p)))) w'
          \<and> api_calls w' = api_calls w + nat (go_maxRetries p) \<and> quiet w' = quiet w"
proof (cases "0 \<le> go_maxRetries p")
  case False
  then have "nat (go_maxRetries p) = 0" by simp
  with False show ?thesis
    by (intro exI[of _ w])
       (simp add: generateObject_def generateObject_loop_done errors_def last_or_def List.map_filter_def)
next
  case True
  let ?K = "nat (go_maxRetries p)"
  have a: "\<forall>j<?K. attempt_obj ext (go_schema p) (api_calls w + j) = None"
    using assms by auto
  have b: "int (0 + ?K) \<le> go_maxRetries p" using True by simp
  from skipped[OF a b, of ft "go_inputTokens p" "go_outputTokens p" None]
  obtain w' where w': "generateObject ext ft p w =
             generateObject_loop ext ft p ?K
               (go_inputTokens p + (\<Sum>j<?K. attempt_in ext (api_calls w + j)))
               (go_outputTokens p + (\<Sum>j<?K. attempt_out ext (api_calls w + j)))
               (last_or None (errors ext (api_calls w) ?K)) w'"
    "api_calls w' = api_calls w + ?K" "quiet w' = quiet w"
    unfolding generateObject_def by auto
  have "\<not> int ?K < go_maxRetries p" using True by simp
  then show ?thesis
    using w' by (intro exI[of _ w']) (simp add: generateObject_loop_done)
qed

lemma generateObject_failed_obs:
  "api_calls (snd (generateObject_failed p le w)) = api_calls w"
  "emits (snd (generateObject_failed p le w)) = emits w"
  "fst (generateObject_failed p (Some e) w) = Inl e"
  "fst (generateObject_failed p None w) = Inr ()"
  "cancels (snd (generateObject_failed p (Some e) w)) =
     cancels w @ [(go_pendingId p, ''Object generation failed: '' @ e)]"
  "cancels (snd (generateObject_failed p None w)) = cancels w @ [(go_pendingId p, ''Failed to generate object'')]"
  by (simp_all add: generateObject_failed_def split: option.splits)

text \<open>
  C8. \<^verbatim>\<open>generateObject\<close> calls the model at most \<open>maxRetries\<close> times. If attempt \<open>k + 1\<close> is the
  first whose forced \<^verbatim>\<open>json\<close> tool input validates, the turn is completed after exactly
  \<open>k + 1\<close> calls with the original text, that object, and the tokens handed in plus those of
  every answer received so far, and nothing is cancelled. If no attempt within the budget
  validates, all of the budget is used, nothing is emitted, and the pending event is cancelled:
  with the message of the last error raised, which is then raised again, or, when no attempt
  raised, with \<^verbatim>\<open>Failed to generate object\<close>.
\<close>

theorem generateObject_bounded_retry:
  "api_calls (snd (generateObject ext ft p w)) \<le> api_calls w + nat (go_maxRetries p)
   \<and> (\<forall>k obj. int k < go_maxRetries p
          \<and> attempt_obj ext (go_schema p) (api_calls w + k) = Some obj
          \<and> (\<forall>j<k. attempt_obj ext (go_schema p) (api_calls w + j) = None) \<longrightarrow>
        fst (generateObject ext ft p w) = Inr ()
        \<and> api_calls (snd (generateObject ext ft p w)) = api_calls w + k + 1
        \<and> emits (snd (generateObject ext ft p w)) =
            emits w @ [Emit ft (Some obj)
                         (go_inputTokens p + (\<Sum>j\<le>k. attempt_in ext (api_calls w + j)))
                         (go_outputTokens p + (\<Sum>j\<le>k. attempt_out ext (api_calls w + j)))
                         (go_pendingId p) (go_parentEventId p)]
        \<and> cancels (snd (generateObject ext ft p w)) = cancels w)
   \<and> ((\<forall>j. int j < go_maxRetries p \<longrightarrow> attempt_obj ext (go_schema p) (api_calls w + j) = None) \<longrightarrow>
        api_calls (snd (generateObject ext ft p w)) = api_calls w + nat (go_maxRetries p)
        \<and> emits (snd (generateObject ext ft p w)) = emits w
        \<and> (case last_or None (errors ext (api_calls w) (nat (go_maxRetries p))) of
             Some e \<Rightarrow>
               fst (generateObject ext ft p w) = Inl e
               \<and> cancels (snd (generateObject ext ft p w)) =
                   cancels w @ [(go_pendingId p, ''Object generation failed: '' @ e)]
           | None \<Rightarrow>
               fst (generateObject ext ft p w) = Inr ()
               \<and> cancels (snd (generateObject ext ft p w)) =
                   cancels w @ [(go_pendingId p, ''Failed to generate object'')]))"
proof -
  let ?ok = "\<lambda>k. int k < go_maxRetries p \<and> attempt_obj ext (go_schema p) (api_calls w + k) \<noteq> None"
  have exhausted: "api_calls (snd (generateObject ext ft p w)) = api_calls w + nat (go_maxRetries p)
        \<and> emits (snd (generateObject ext ft p w)) = emits w
        \<and> (case last_or None (errors ext (api_calls w) (nat (go_maxRetries p))) of
             Some e \<Rightarrow>
               fst (generateObject ext ft p w) = Inl e
               \<and> cancels (snd (generateObject ext ft p w)) =
                   cancels w @ [(go_pendingId p, ''Object generation failed: '' @ e)]
           | None \<Rightarrow>
               fst (generateObject ext ft p w) = Inr ()
               \<and> cancels (snd (generateObject ext ft p w)) =
                   cancels w @ [(go_pendingId p, ''Failed to generate object'')])"
    if "\<forall>j. int j < go_maxRetries p \<longrightarrow> attempt_obj ext (go_schema p) (api_calls w + j) = None"
  proof -
    from go_exhausted[OF that, of ft] obtain w' where w':
      "generateObject ext ft p w =
         generateObject_failed p (last_or None (errors ext (api_calls w) (nat (go_maxRetries p)))) w'"
      "api_calls w' = api_calls w + nat (go_maxRetries p)" "quiet w' = quiet w"
      by blast
    from quiet_cancels_emits[OF w'(3)] w'(1,2) show ?thesis
      by (cases "last_or None (errors ext (api_calls w) (nat (go_maxRetries p)))")
         (simp_all add: generateObject_failed_obs)
  qed
  have bound: "api_calls (snd (generateObject ext ft p w)) \<le> api_calls w + nat (go_maxRetries p)"
  proof (cases "\<exists>k. ?ok k")
    case False
    then have "\<forall>j. int j < go_maxRetries p \<longrightarrow> attempt_obj ext (go_schema p) (api_calls w + j) = None"
      by auto
    from exhausted[OF this] show ?thesis by simp
  next
    case True
    define k where "k = (LEAST k. ?ok k)"
    from True have okk: "?ok k" unfolding k_def by (rule LeastI_ex)
    have "\<forall>j<k. attempt_obj ext (go_schema p) (api_calls w + j) = None"
    proof (intro allI impI)
      fix j assume "j < k"
      then have "\<not> ?ok j" unfolding k_def by (rule not_less_Least)
      moreover from \<open>j < k\<close> okk have "int j < go_maxRetries p" by simp
      ultimately show "attempt_obj ext (go_schema p) (api_calls w + j) = None" by simp
    qed
    moreover from okk obtain obj where "attempt_obj ext (go_schema p) (api_calls w + k) = Some obj"
      by auto
    ultimately have "api_calls (snd (generateObject ext ft p w)) = api_calls w + k + 1"
      using okk by (intro go_success(2)) simp_all
    moreover from okk have "k + 1 \<le> nat (go_maxRetries p)" by linarith
    ultimately show ?thesis by simp
  qed
  have success: "fst (generateObject ext ft p w) = Inr ()
        \<and> api_calls (snd (generateObject ext ft p w)) = api_calls w + k + 1
        \<and> emits (snd (generateObject ext ft p w)) =
            emits w @ [Emit ft (Some obj)
                         (go_inputTokens p + (\<Sum>j\<le>k. attempt_in ext (api_calls w + j)))
                         (go_outputTokens p + (\<Sum>j\<le>k. attempt_out ext (api_calls w + j)))
                         (go_pendingId p) (go_parentEventId p)]
        \<and> cancels (snd (generateObject ext ft p w)) = cancels w"
    if "int k < go_maxRetries p
          \<and> attempt_obj ext (go_schema p) (api_calls w + k) = Some obj
          \<and> (\<forall>j<k. attempt_obj ext (go_schema p) (api_calls w + j) = None)" for k obj
  proof -
    from that have a: "int k < go_maxRetries p"
      and b: "attempt_obj ext (go_schema p) (api_calls w + k) = Some obj"
      and c: "\<forall>j<k. attempt_obj ext (go_schema p) (api_calls w + j) = None"
      by simp_all
    show ?thesis
      using go_success(1)[OF a b c] go_success(2)[OF a b c] go_success(3)[OF a b c]
        go_success(4)[OF a b c]
      by simp
  qed
  show ?thesis
  proof (intro conjI)
    show "api_calls (snd (generateObject ext ft p w)) \<le> api_calls w + nat (go_maxRetries p)"
      by (rule bound)
  next
    show "\<forall>k obj. int k < go_maxRetries p
          \<and> attempt_obj ext (go_schema p) (api_calls w + k) = Some obj
          \<and> (\<forall>j<k. attempt_obj ext (go_schema p) (api_calls w + j) = None) \<longrightarrow>
        fst (generateObject ext ft p w) = Inr ()
        \<and> api_calls (snd (generateObject ext ft p w)) = api_calls w + k + 1
        \<and> emits (snd (generateObject ext ft p w)) =
            emits w @ [Emit ft (Some obj)
                         (go_inputTokens p + (\<Sum>j\<le>k. attempt_in ext (api_calls w + j)))
                         (go_outputTokens p + (\<Sum>j\<le>k. attempt_out ext (api_calls w + j)))
                         (go_pendingId p) (go_parentEventId p)]
        \<and> cancels (snd (generateObject ext ft p w)) = cancels w"
    proof (intro allI impI)
      fix k obj
      assume "int k < go_maxRetries p
          \<and> attempt_obj ext (go_schema p) (api_calls w + k) = Some obj
          \<and> (\<forall>j<k. attempt_obj ext (go_schema p) (api_calls w + j) = None)"
      then show "fst (generateObject ext ft p w) = Inr ()
        \<and> api_calls (snd (generateObject ext ft p w)) = api_calls w + k + 1
        \<and> emits (snd (generateObject ext ft p w)) =
            emits w @ [Emit ft (Some obj)
                         (go_inputTokens p + (\<Sum>j\<le>k. attempt_in ext (api_calls w + j)))
                         (go_outputTokens p + (\<Sum>j\<le>k. attempt_out ext (api_calls w + j)))
                         (go_pendingId p) (go_parentEventId p)]
        \<and> cancels (snd (generateObject ext ft p w)) = cancels w"
        by (rule success)
    qed
  next
    show "(\<forall>j. int j < go_maxRetries p \<longrightarrow> attempt_obj ext (go_schema p) (api_calls w + j) = None) \<longrightarrow>
        api_calls (snd (generateObject ext ft p w)) = api_calls w + nat (go_maxRetries p)
        \<and> emits (snd (generateObject ext ft p w)) = emits w
        \<and> (case last_or None (errors ext (api_calls w) (nat (go_maxRetries p))) of
             Some e \<Rightarrow>
               fst (generateObject ext ft p w) = Inl e
               \<and> cancels (snd (generateObject ext ft p w)) =
                   cancels w @ [(go_pendingId p, ''Object generation failed: '' @ e)]
           | None \<Rightarrow>
               fst (generateObject ext ft p w) = Inr ()
               \<and> cancels (snd (generateObject ext ft p w)) =
                   cancels w @ [(go_pendingId p, ''Failed to generate object'')])"
      using exhausted by (rule impI)
  qed
qed

lemma attempt_invalid_then_valid:
  "attempt_obj ext_invalid_then_valid ''S'' 0 = None"
  "attempt_obj ext_invalid_then_valid ''S'' (Suc 0) = Some ''good''"
  "attempt_in ext_invalid_then_valid 0 = 7" "attempt_in ext_invalid_then_valid (Suc 0) = 8"
  "attempt_out ext_invalid_then_valid 0 = 2" "attempt_out ext_invalid_then_valid (Suc 0) = 3"
  by (simp_all add: attempt_obj_def attempt_in_def attempt_out_def ext_invalid_then_valid_def
      msg_json_def validated_object_def is_tool_use_def tool_use_input_def)

lemma attempt_always_raises:
  "attempt_obj ext_always_raises sch n = None"
  "last_or None (errors ext_always_raises 0 2) = Some ''boom''"
proof -
  show "attempt_obj ext_always_raises sch n = None"
    by (simp add: attempt_obj_def ext_always_raises_def)
  have "[0..<0 + 2] = [0, Suc 0]" by (simp add: upt_conv_Cons)
  then show "last_or None (errors ext_always_raises 0 2) = Some ''boom''"
    by (simp add: errors_def last_or_def map_filter_simps attempt_err_def ext_always_raises_def)
qed

theorem generateObject_bounded_retry_witness:
  "fst (generateObject ext_invalid_then_valid ''Hi there'' gen_params empty_world) = Inr ()
   \<and> api_calls (snd (generateObject ext_invalid_then_valid ''Hi there'' gen_params empty_world)) = 2
   \<and> emits (snd (generateObject ext_invalid_then_valid ''Hi there'' gen_params empty_world))
       = [Emit ''Hi there'' (Some ''good'') 20 8 ''p'' ''e'']
   \<and> fst (generateObject ext_always_raises ''Hi there'' gen_params empty_world) = Inl ''boom''
   \<and> api_calls (snd (generateObject ext_always_raises ''Hi there'' gen_params empty_world)) = 2
   \<and> cancels (snd (generateObject ext_always_raises ''Hi there'' gen_params empty_world))
       = [(''p'', ''Object generation failed: boom'')]"
proof -
  note A = generateObject_bounded_retry[of ext_invalid_then_valid "''Hi there''" gen_params empty_world]
  note B = generateObject_bounded_retry[of ext_always_raises "''Hi there''" gen_params empty_world]
  have g: "go_maxRetries gen_params = 2" "go_schema gen_params = ''S''" "go_pendingId gen_params = ''p''"
    "go_inputTokens gen_params = 5" "go_outputTokens gen_params = 3" "go_parentEventId gen_params = ''e''"
    by (simp_all add: gen_params_def)
  have hyp: "int (Suc 0) < go_maxRetries gen_params
      \<and> attempt_obj ext_invalid_then_valid (go_schema gen_params) (api_calls empty_world + Suc 0) = Some ''good''
      \<and> (\<forall>j<Suc 0. attempt_obj ext_invalid_then_valid (go_schema gen_params) (api_calls empty_world + j) = None)"
    by (simp add: g attempt_invalid_then_valid)
  from A have "fst (generateObject ext_invalid_then_valid ''Hi there'' gen_params empty_world) = Inr ()
        \<and> api_calls (snd (generateObject ext_invalid_then_valid ''Hi there'' gen_params empty_world))
            = api_calls empty_world + Suc 0 + 1
        \<and> emits (snd (generateObject ext_invalid_then_valid ''Hi there'' gen_params empty_world)) =
            emits empty_world @ [Emit ''Hi there'' (Some ''good'')
               (go_inputTokens gen_params + (\<Sum>j\<le>Suc 0. attempt_in ext_invalid_then_valid (api_calls empty_world + j)))
               (go_outputTokens gen_params + (\<Sum>j\<le>Suc 0. attempt_out ext_invalid_then_valid (api_calls empty_world + j)))
               (go_pendingId gen_params) (go_parentEventId gen_params)]
        \<and> cancels (snd (generateObject ext_invalid_then_valid ''Hi there'' gen_params empty_world))
            = cancels empty_world"
    using hyp by blast
  then have first: "fst (generateObject ext_invalid_then_valid ''Hi there'' gen_params empty_world) = Inr ()
   \<and> api_calls (snd (generateObject ext_invalid_then_valid ''Hi there'' gen_params empty_world)) = 2
   \<and> emits (snd (generateObject ext_invalid_then_valid ''Hi there'' gen_params empty_world))
       = [Emit ''Hi there'' (Some ''good'') 20 8 ''p'' ''e'']"
    by (simp add: g attempt_invalid_then_valid)
  have none: "\<forall>j. int j < go_maxRetries gen_params \<longrightarrow>
      attempt_obj ext_always_raises (go_schema gen_params) (api_calls empty_world + j) = None"
    by (simp add: attempt_always_raises)
  from B none have "api_calls (snd (generateObject ext_always_raises ''Hi there'' gen_params empty_world))
          = api_calls empty_world + nat (go_maxRetries gen_params)
        \<and> emits (snd (generateObject ext_always_raises ''Hi there'' gen_params empty_world)) = emits empty_world
        \<and> (case last_or None (errors ext_always_raises (api_calls empty_world) (nat (go_maxRetries gen_params))) of
             Some e \<Rightarrow>
               fst (generateObject ext_always_raises ''Hi there'' gen_params empty_world) = Inl e
               \<and> cancels (snd (generateObject ext_always_raises ''Hi there'' gen_params empty_world)) =
                   cancels empty_world @ [(go_pendingId gen_params, ''Object generation failed: '' @ e)]
           | None \<Rightarrow>
               fst (generateObject ext_always_raises ''Hi there'' gen_params empty_world) = Inr ()
               \<and> cancels (snd (generateObject ext_always_raises ''Hi there'' gen_params empty_world)) =
                   cancels empty_world @ [(go_pendingId gen_params, ''Failed to generate object'')])"
    by blast
  then have second: "fst (generateObject ext_always_raises ''Hi there'' gen_params empty_world) = Inl ''boom''
   \<and> api_calls (snd (generateObject ext_always_raises ''Hi there'' gen_params empty_world)) = 2
   \<and> cancels (snd (generateObject ext_always_raises ''Hi there'' gen_params empty_world))
       = [(''p'', ''Object generation failed: boom'')]"
    by (simp add: g attempt_always_raises)
  from first second show ?thesis by simp
qed

section \<open>Retry, and the usage that is reported\<close>

lemma str_includes_sublist: "str_includes s sub = sublist sub s"
  by (auto simp: str_includes_def list_ex_iff sublist_altdef')

lemma isRetryable_transient: "isRetryable msg = transient msg"
  by (simp add: isRetryable_def transient_def transient_marks_def str_includes_sublist Let_def)






lemma not_transient_unauthorized: "\<not> transient ''invalid x-api-key''"
  using not_retryable_unauthorized by (simp add: isRetryable_transient)









section \<open>Keys, and what a turn does to the store\<close>

lemma key_neq [simp]:
  "lock_key e \<noteq> call_key e'" "lock_key e \<noteq> timer_key e'" "lock_key e \<noteq> result_key e' t i"
  "call_key e \<noteq> timer_key e'" "call_key e \<noteq> result_key e' t i" "call_key e \<noteq> lock_key e'"
  "timer_key e \<noteq> result_key e' t i" "timer_key e \<noteq> call_key e'" "timer_key e \<noteq> lock_key e'"
  "result_key e' t i \<noteq> lock_key e" "result_key e' t i \<noteq> call_key e" "result_key e' t i \<noteq> timer_key e"
  by (simp_all add: lock_key_def call_key_def timer_key_def result_key_def)

lemma key_inj [simp]:
  "call_key e = call_key e' \<longleftrightarrow> e = e'" "timer_key e = timer_key e' \<longleftrightarrow> e = e'"
  "lock_key e = lock_key e' \<longleftrightarrow> e = e'"
  by (simp_all add: lock_key_def call_key_def timer_key_def)

lemma not_result_prefix [simp]:
  "\<not> prefix (result_prefix e t) (call_key e')" "\<not> prefix (result_prefix e t) (timer_key e')"
  "\<not> prefix (result_prefix e t) (lock_key e')"
  by (simp_all add: result_prefix_def call_key_def timer_key_def lock_key_def)

lemma kv_of_durable: "durable w' = durable w \<Longrightarrow> kv w' = kv w"
  by (simp add: durable_def)

lemma kv_setTimeoutTimer:
  "kv (setTimeoutTimer e w) = upsert (timer_key e) (TimerV (next_timer w)) (kv w)"
  by (simp add: setTimeoutTimer_def timers_set_def kv_set_def effect_def Let_def)

lemma kv_storeCallState: "kv (storeCallState e cs w) = upsert (call_key e) (CallStateV cs) (kv w)"
  by (simp add: storeCallState_def kv_set_def effect_def)

lemma kv_deleteCallState: "kv (deleteCallState e w) = filter (\<lambda>(k, v). k \<noteq> call_key e) (kv w)"
  by (simp add: deleteCallState_def kv_delete_def effect_def)

lemma map_of_filter_key:
  "map_of (filter (\<lambda>(k, v). k \<noteq> k0) kvs) k = (if k = k0 then None else map_of kvs k)"
  by (induction kvs) auto

lemma filter_filter_key:
  "\<not> prefix p k0 \<Longrightarrow>
     filter (\<lambda>(k, v). prefix p k) (filter (\<lambda>(k, v). k \<noteq> k0) kvs) = filter (\<lambda>(k, v). prefix p k) kvs"
  by (induction kvs) auto

lemma turn_outcome_cases:
  assumes "turn_outcome e w w'"
  obtains (same) "kv w' = kv w" "timers w' = timers w" "next_timer w' = next_timer w"
    | (suspend) cs where "kv w' = upsert (timer_key e) (TimerV (next_timer w)) (upsert (call_key e) (CallStateV cs) (kv w))"
        "timers w' = timers w @ [(next_timer w, e)]" "next_timer w' = Suc (next_timer w)"
    | (discard) "kv w' = filter (\<lambda>(k, v). k \<noteq> call_key e) (kv w)" "timers w' = timers w"
        "next_timer w' = next_timer w"
proof -
  from assms have "durable w' = durable w
      \<or> (\<exists>cs. durable w' = durable (setTimeoutTimer e (storeCallState e cs w)))
      \<or> durable w' = durable (deleteCallState e w)"
    unfolding turn_outcome_def .
  then show thesis
  proof (elim disjE exE)
    assume "durable w' = durable w"
    then show thesis by (intro same) (simp_all add: durable_def)
  next
    fix cs assume "durable w' = durable (setTimeoutTimer e (storeCallState e cs w))"
    then show thesis
      by (intro suspend[of cs])
         (simp_all add: durable_def setTimeoutTimer_def timers_set_def kv_set_def effect_def
            storeCallState_def Let_def)
  next
    assume "durable w' = durable (deleteCallState e w)"
    then show thesis
      by (intro discard) (simp_all add: durable_def deleteCallState_def kv_delete_def effect_def)
  qed
qed

lemma turn_outcome_kv_get:
  assumes "turn_outcome e w w'" "k \<noteq> call_key e" "k \<noteq> timer_key e"
  shows "kv_get w' k = kv_get w k"
  using assms(1)
proof (cases rule: turn_outcome_cases)
  case same
  then show ?thesis by (simp add: kv_get_def)
next
  case (suspend cs)
  with assms(2,3) show ?thesis by (simp add: kv_get_def map_of_upsert)
next
  case discard
  with assms(2) show ?thesis by (simp add: kv_get_def map_of_filter_key)
qed

lemma turn_outcome_kv_list:
  assumes "turn_outcome e w w'"
  shows "kv_list w' (result_prefix e' t) = kv_list w (result_prefix e' t)"
  using assms(1)
proof (cases rule: turn_outcome_cases)
  case same
  then show ?thesis by (simp add: kv_list_def)
next
  case (suspend cs)
  then show ?thesis by (simp add: kv_list_def kv_list_upsert_other)
next
  case discard
  then show ?thesis by (simp add: kv_list_def filter_filter_key del: filter_filter)
qed

lemma executeTurn_outcome: "turn_outcome (eventId a) w (snd (executeTurn ext a w))"
  by (simp add: executeTurn_def executeTurn_loop_outcome)

lemma continueTurn_outcome: "turn_outcome e w (snd (continueTurn ext e cs tr key bid w))"
proof -
  let ?w1 = "updatePending (cs_pendingId cs)
                 (''Received results from tool''
                    @ (if length (cs_toolCallIds cs) = 1 then [] else ''s'') @ ''...'') w"
  let ?a = "\<lparr>pendingId = cs_pendingId cs, eventId = e, blockId = bid,
            messages = cs_messages cs
            @ [(User, Blocks (List.map_filter
                                (\<lambda>i. case tr i of
                                        None \<Rightarrow> None
                                      | Some result \<Rightarrow> Some (ToolResultBlock i result))
                                (cs_toolCallIds cs)))],
            toolDefinitions = cs_toolDefinitions cs, force = cs_force cs, params = cs_params cs,
            turn = cs_turn cs, apiKey = key, maxRetries = cs_maxRetries cs,
            schema = cs_schema cs\<rparr>"
  have "turn_outcome (eventId ?a) ?w1 (snd (executeTurn ext ?a ?w1))"
    by (rule executeTurn_outcome)
  then have "turn_outcome e ?w1 (snd (continueTurn ext e cs tr key bid w))"
    by (simp add: continueTurn_def Let_def)
  moreover have "durable ?w1 = durable w" by simp
  ultimately show ?thesis by (rule turn_outcome_cong[rotated])
qed

section \<open>The timeout handler\<close>

lemma kv_get_setTimerLock: "kv_get (setTimerLock e w) (lock_key e) = Some (BoolV True)"
  by (simp add: setTimerLock_def kv_get_kv_set)

lemma onTimer_error_keeps_lock:
  assumes "onTimer ext inp e w = (Inl err, w')"
  shows "isTimerLocked w' e"
proof -
  let ?w1 = "setTimerLock e w"
  show ?thesis
  proof (cases "loadCallState ?w1 e")
    case (Inl x)
    with assms have "w' = ?w1" by (simp add: onTimer_def Let_def)
    then show ?thesis by (simp add: isTimerLocked_setTimerLock)
  next
    case (Inr cs)
    let ?lr = "loadToolResults ?w1 e (cs_turn cs) (cs_toolCallIds cs)"
    let ?c = "continueTurn ext e cs (snd ?lr) (in_apiKey inp) (in_blockId inp) ?w1"
    from assms Inr have complete: "fst ?lr"
      by (auto simp: onTimer_def Let_def split: if_splits)
    with assms Inr have "?c = (Inl err, w')"
      by (cases ?c; cases "fst ?c") (auto simp: onTimer_def Let_def)
    then have "w' = snd ?c" by simp
    with continueTurn_outcome[of e ?w1 ext cs "snd ?lr" "in_apiKey inp" "in_blockId inp"]
    have "kv_get w' (lock_key e) = kv_get ?w1 (lock_key e)"
      by (intro turn_outcome_kv_get) simp_all
    then show ?thesis
      by (simp add: isTimerLocked_def kv_get_setTimerLock truthy_def)
  qed
qed

lemma continueTurn_executeTurn:
  "continueTurn ext e cs tr key bid w =
     executeTurn ext (resumed_args e cs tr key bid) (received_results cs w)"
  by (simp add: continueTurn_def resumed_args_def received_results_def Let_def)

lemma received_results_obs [simp]:
  "quiet (received_results cs w) = quiet w" "api_calls (received_results cs w) = api_calls w"
  "sleeps (received_results cs w) = sleeps w" "durable (received_results cs w) = durable w"
  by (simp_all add: received_results_def)

lemma resumed_args_sel [simp]:
  "maxRetries (resumed_args e cs tr key bid) = cs_maxRetries cs"
  "eventId (resumed_args e cs tr key bid) = e"
  "pendingId (resumed_args e cs tr key bid) = cs_pendingId cs"
  "schema (resumed_args e cs tr key bid) = cs_schema cs"
  by (simp_all add: resumed_args_def)

lemma continueTurn_fails:
  assumes "final (api ext (api_calls w)) = Inl err"
    and "\<not> isRetryable err \<or> cs_maxRetries cs \<le> 1" and "0 < cs_maxRetries cs"
  shows "\<exists>w'. continueTurn ext e cs tr key bid w
               = executeTurn_failed (resumed_args e cs tr key bid) (Some err) w'
             \<and> api_calls w' = api_calls w + 1 \<and> quiet w' = quiet w"
proof -
  let ?a = "resumed_args e cs tr key bid"
  let ?w = "received_results cs w"
  have 1: "\<forall>i<0. \<exists>err. final (api ext (api_calls ?w + i)) = Inl err \<and> isRetryable err" by simp
  have 2: "int (0 + 0) < maxRetries ?a" using assms(3) by simp
  have 3: "final (api ext (api_calls ?w + 0)) = Inl err" using assms(1) by simp
  have 4: "\<not> isRetryable err \<or> maxRetries ?a \<le> int (0 + 0 + 1)" using assms(2) by simp
  from fails_after[OF 1 2 3 4, of None] show ?thesis
    by (auto simp: continueTurn_executeTurn executeTurn_def)
qed

lemma continueTurn_text:
  assumes "final (api ext (api_calls w)) = Inr m" and "0 < cs_maxRetries cs"
    and "stop_reason m = EndTurn" and "cs_schema cs = None"
    and "find is_text (rev (content m)) = Some (TextBlock t)" and "t \<noteq> []"
  shows "\<exists>w'. continueTurn ext e cs tr key bid w
               = (Inr (), emitResult (cs_pendingId cs) t None (input_tokens m) (output_tokens m) e w')
             \<and> api_calls w' = api_calls w + 1 \<and> quiet w' = quiet w"
proof -
  let ?a = "resumed_args e cs tr key bid"
  let ?w = "received_results cs w"
  have 1: "\<forall>i<0. \<exists>err. final (api ext (api_calls ?w + i)) = Inl err \<and> isRetryable err" by simp
  have 2: "int (0 + 0) < maxRetries ?a" using assms(2) by simp
  have 3: "final (api ext (api_calls ?w + 0)) = Inr m" using assms(1) by simp
  from succeeds_after[OF 1 2 3, of None] obtain w' where w':
    "executeTurn_loop ext ?a 0 None ?w = handleModelResponse ext ?a m w'"
    "api_calls w' = api_calls w + 1" "quiet w' = quiet w"
    by auto
  have "handleModelResponse ext ?a m w' =
      (Inr (), emitResult (pendingId ?a) t None (input_tokens m) (output_tokens m) (eventId ?a) w')"
    using assms(3,4,5,6) by (intro handleModelResponse_text) simp_all
  with w' show ?thesis
    by (intro exI[of _ w']) (simp add: continueTurn_executeTurn executeTurn_def)
qed

lemma onTimer_resumes:
  assumes "loadCallState (setTimerLock e w) e = Inr cs"
    and "fst (loadToolResults (setTimerLock e w) e (cs_turn cs) (cs_toolCallIds cs))"
  shows "onTimer ext inp e w =
     (case continueTurn ext e cs
             (snd (loadToolResults (setTimerLock e w) e (cs_turn cs) (cs_toolCallIds cs)))
             (in_apiKey inp) (in_blockId inp) (setTimerLock e w) of
        (Inl err, w2) \<Rightarrow> (Inl err, w2)
      | (Inr u, w2) \<Rightarrow> (Inr (), clearTimerLock e w2))"
  using assms by (simp add: onTimer_def Let_def)

lemma show_nat_Suc_0: "show_nat (Suc 0) = ''1''"
  using show_nat_1 by simp

lemma kv_complete_world:
  "kv complete_world =
     [(''call-e'', CallStateV cs_one_tool), (''result-e-1-x'', FragmentV ''x'' ''42'')]"
  by (simp add: complete_world_def suspended_world_def storeToolResult_def storeCallState_def
      kv_set_def effect_def empty_world_def call_key_def result_key_def show_nat_Suc_0)

lemma kv_locked_complete_world:
  "kv (setTimerLock ''e'' complete_world) =
     [(''call-e'', CallStateV cs_one_tool), (''result-e-1-x'', FragmentV ''x'' ''42''),
      (''lock-e'', BoolV True)]"
  by (simp add: setTimerLock_def kv_set_def effect_def kv_complete_world lock_key_def)

lemma api_calls_kv_set [simp]: "api_calls (kv_set k v ttl w) = api_calls w"
  by (simp add: kv_set_def)

lemma api_calls_complete_world [simp]:
  "api_calls complete_world = 0" "api_calls (setTimerLock ''e'' complete_world) = 0"
  by (simp_all add: complete_world_def suspended_world_def storeToolResult_def storeCallState_def
      setTimerLock_def)

lemma cs_one_tool_sel [simp]:
  "cs_turn cs_one_tool = 1" "cs_toolCallIds cs_one_tool = [''x'']" "cs_maxRetries cs_one_tool = 1"
  "cs_schema cs_one_tool = None" "cs_pendingId cs_one_tool = ''p''"
  by (simp_all add: cs_one_tool_def)

text \<open>
  C1, at an input where the code leaves the claim. The timeout fires for a suspended turn whose
  only tool result is stored; the resumed model call fails with an error that is not retried.
  \<^verbatim>\<open>onTimer\<close> raises that error, and the lock it took is still held.
\<close>

theorem onTimer_raises_with_lock_held:
  "fst (onTimer ext_unauthorized handler_input ''e'' complete_world) = Inl ''invalid x-api-key''
   \<and> isTimerLocked (snd (onTimer ext_unauthorized handler_input ''e'' complete_world)) ''e''"
proof -
  let ?w1 = "setTimerLock ''e'' complete_world"
  have load: "loadCallState ?w1 ''e'' = Inr cs_one_tool"
    by (simp add: loadCallState_def kv_get_def kv_locked_complete_world call_key_def)
  have complete: "fst (loadToolResults ?w1 ''e'' (cs_turn cs_one_tool) (cs_toolCallIds cs_one_tool))"
    by (simp add: loadToolResults_def kv_list_def kv_locked_complete_world result_prefix_def
        show_nat_Suc_0 toolResults_of_def)
  have err: "final (api ext_unauthorized (api_calls ?w1)) = Inl ''invalid x-api-key''"
    by (simp add: ext_unauthorized_def)
  from continueTurn_fails[OF err, of cs_one_tool "''e''"
      "snd (loadToolResults ?w1 ''e'' (cs_turn cs_one_tool) (cs_toolCallIds cs_one_tool))"
      "in_apiKey handler_input" "in_blockId handler_input"]
  obtain w' where "continueTurn ext_unauthorized ''e'' cs_one_tool
      (snd (loadToolResults ?w1 ''e'' (cs_turn cs_one_tool) (cs_toolCallIds cs_one_tool)))
      (in_apiKey handler_input) (in_blockId handler_input) ?w1
       = executeTurn_failed (resumed_args ''e'' cs_one_tool
            (snd (loadToolResults ?w1 ''e'' (cs_turn cs_one_tool) (cs_toolCallIds cs_one_tool)))
            (in_apiKey handler_input) (in_blockId handler_input)) (Some ''invalid x-api-key'') w'"
    using not_retryable_unauthorized by auto
  then have raised: "fst (onTimer ext_unauthorized handler_input ''e'' complete_world) = Inl ''invalid x-api-key''"
    by (simp add: onTimer_resumes[OF load complete] executeTurn_failed_def Let_def)
  then have "onTimer ext_unauthorized handler_input ''e'' complete_world
      = (Inl ''invalid x-api-key'', snd (onTimer ext_unauthorized handler_input ''e'' complete_world))"
    by (metis prod.collapse)
  then have "isTimerLocked (snd (onTimer ext_unauthorized handler_input ''e'' complete_world)) ''e''"
    by (rule onTimer_error_keeps_lock)
  with raised show ?thesis by simp
qed

section \<open>Discarding the call state\<close>

lemma trace_discard:
  "trace (deleteCallState e (cancelPending p d w)) = trace w @ [CancelPending p d, KvDelete [call_key e]]"
  by (simp add: deleteCallState_def kv_delete_def cancelPending_def effect_def)

lemma loadCallState_deleteCallState: "loadCallState (deleteCallState e w) e = Inl ''Call state not found''"
  by (simp add: loadCallState_def deleteCallState_def kv_get_kv_delete)

lemma loadCallState_kv: "kv w' = kv w \<Longrightarrow> loadCallState w' e = loadCallState w e"
  by (simp add: loadCallState_def kv_get_def)

lemma kv_of_quiet: "quiet w' = quiet w \<Longrightarrow> kv w' = kv w"
  by (simp add: quiet_def)

lemma kv_emitResult [simp]: "kv (emitResult p t ob i o' pe w) = kv w"
  by (simp add: emitResult_def effect_def)

lemma executeTurn_failed_snd:
  "snd (executeTurn_failed a (Some err) w) =
     deleteCallState (eventId a)
       (cancelPending (pendingId a)
          (''API call failed: '' @ (if err = [] then ''Unknown error'' else err)) w)"
  by (simp add: executeTurn_failed_def Let_def)

lemma handleModelResponse_other:
  "stop_reason m = OtherStop \<Longrightarrow>
     handleModelResponse ext a m w =
       (Inr (), deleteCallState (eventId a)
                  (cancelPending (pendingId a) ''Unexpected response from model'' w))"
  by (simp add: handleModelResponse_def)

text \<open>
  C3, as the claim states it, fails: the result of the outstanding tool call arrives, the turn
  is resumed, the model answers with its final text, the result is emitted, and the call state
  of the conversation is still in the store.
\<close>

theorem resumed_turn_keeps_call_state_counterexample:
  "fst (onInternalMessage ext_hi handler_input ''42'' ''e'' ''x'' suspended_world) = Inr ()
   \<and> emits (snd (onInternalMessage ext_hi handler_input ''42'' ''e'' ''x'' suspended_world))
       = [Emit ''Hi there'' None 5 3 ''p'' ''e'']
   \<and> loadCallState (snd (onInternalMessage ext_hi handler_input ''42'' ''e'' ''x'' suspended_world)) ''e''
       = Inr cs_one_tool"
proof -
  have kv0: "kv suspended_world = [(''call-e'', CallStateV cs_one_tool)]"
    by (simp add: suspended_world_def storeCallState_def kv_set_def effect_def empty_world_def call_key_def)
  have unlocked: "\<not> isTimerLocked suspended_world ''e''"
    by (simp add: isTimerLocked_def kv_get_def kv0 lock_key_def truthy_def)
  have load: "loadCallState suspended_world ''e'' = Inr cs_one_tool"
    by (simp add: loadCallState_def kv_get_def kv0 call_key_def)
  have clear: "clearTimeoutTimer ''e'' suspended_world = suspended_world"
    by (simp add: clearTimeoutTimer_def kv_get_def kv0 timer_key_def)
  have complete: "fst (loadToolResults complete_world ''e'' 1 [''x''])"
    by (simp add: loadToolResults_def kv_list_def kv_complete_world result_prefix_def
        show_nat_Suc_0 toolResults_of_def)
  have unfold: "onInternalMessage ext_hi handler_input ''42'' ''e'' ''x'' suspended_world =
      continueTurn ext_hi ''e'' cs_one_tool (snd (loadToolResults complete_world ''e'' 1 [''x'']))
        (in_apiKey handler_input) (in_blockId handler_input) complete_world"
    using unlocked load complete
    by (simp add: onInternalMessage_def clear Let_def complete_world_def)
  have ans: "final (api ext_hi (api_calls complete_world)) = Inr msg_hi"
    by (simp add: ext_hi_def)
  have m: "stop_reason msg_hi = EndTurn" "find is_text (rev (content msg_hi)) = Some (TextBlock ''Hi there'')"
    "input_tokens msg_hi = 5" "output_tokens msg_hi = 3"
    by (simp_all add: msg_hi_def is_text_def)
  from continueTurn_text[OF ans _ m(1) _ m(2), of cs_one_tool "''e''"
      "snd (loadToolResults complete_world ''e'' 1 [''x''])"
      "in_apiKey handler_input" "in_blockId handler_input"]
  obtain w' where w': "continueTurn ext_hi ''e'' cs_one_tool (snd (loadToolResults complete_world ''e'' 1 [''x'']))
        (in_apiKey handler_input) (in_blockId handler_input) complete_world
       = (Inr (), emitResult ''p'' ''Hi there'' None 5 3 ''e'' w')" "quiet w' = quiet complete_world"
    by (auto simp: m)
  have e0: "emits complete_world = []"
    by (simp add: complete_world_def suspended_world_def storeToolResult_def storeCallState_def
        kv_set_def emits_effect)
  from quiet_cancels_emits[OF w'(2)] e0 have "emits w' = []" by simp
  moreover have "loadCallState (emitResult ''p'' ''Hi there'' None 5 3 ''e'' w') ''e'' = Inr cs_one_tool"
    using kv_of_quiet[OF w'(2)]
    by (simp add: loadCallState_def kv_get_def kv_complete_world call_key_def)
  ultimately show ?thesis
    unfolding unfold w'(1) by simp
qed

text \<open>
  C3, amended. On an upstream error that is not retryable or that uses up the budget, and on
  an unexpected stop reason, \<^verbatim>\<open>executeTurn\<close> cancels the pending event and then discards the
  stored call state; the upstream error is then raised, the unexpected stop reason returns
  without raising. A turn that ends with its final text leaves the store as it was, the call
  state included.
\<close>

theorem executeTurn_fatal_discards_state:
  assumes "\<forall>i<N. \<exists>err. final (api ext (api_calls w + i)) = Inl err \<and> isRetryable err"
    and "int N < maxRetries a"
  shows "(\<forall>err. final (api ext (api_calls w + N)) = Inl err
             \<and> (\<not> isRetryable err \<or> maxRetries a \<le> int N + 1) \<longrightarrow>
           fst (executeTurn ext a w) = Inl err
           \<and> loadCallState (snd (executeTurn ext a w)) (eventId a) = Inl ''Call state not found''
           \<and> (\<exists>pre. trace (snd (executeTurn ext a w)) =
                 pre @ [CancelPending (pendingId a)
                          (''API call failed: '' @ (if err = [] then ''Unknown error'' else err)),
                        KvDelete [call_key (eventId a)]]))
       \<and> (\<forall>m. final (api ext (api_calls w + N)) = Inr m \<and> stop_reason m = OtherStop \<longrightarrow>
           fst (executeTurn ext a w) = Inr ()
           \<and> loadCallState (snd (executeTurn ext a w)) (eventId a) = Inl ''Call state not found''
           \<and> (\<exists>pre. trace (snd (executeTurn ext a w)) =
                 pre @ [CancelPending (pendingId a) ''Unexpected response from model'',
                        KvDelete [call_key (eventId a)]]))
       \<and> (\<forall>m t. final (api ext (api_calls w + N)) = Inr m \<and> stop_reason m = EndTurn
             \<and> schema a = None \<and> find is_text (rev (content m)) = Some (TextBlock t) \<and> t \<noteq> [] \<longrightarrow>
           fst (executeTurn ext a w) = Inr () \<and> kv (snd (executeTurn ext a w)) = kv w)"
proof (intro conjI allI impI)
  have b: "int (0 + N) < maxRetries a" using assms(2) by simp
  {
    fix err
    assume h: "final (api ext (api_calls w + N)) = Inl err
             \<and> (\<not> isRetryable err \<or> maxRetries a \<le> int N + 1)"
    then have 3: "final (api ext (api_calls w + N)) = Inl err" by simp
    from h have 4: "\<not> isRetryable err \<or> maxRetries a \<le> int (0 + N + 1)" by auto
    from fails_after[OF assms(1) b 3 4, of None] obtain w' where
      w': "executeTurn ext a w = executeTurn_failed a (Some err) w'"
      unfolding executeTurn_def by blast
    show "fst (executeTurn ext a w) = Inl err"
      by (simp add: w' executeTurn_failed_result)
    show "loadCallState (snd (executeTurn ext a w)) (eventId a) = Inl ''Call state not found''"
      by (simp add: w' executeTurn_failed_snd loadCallState_deleteCallState)
    show "\<exists>pre. trace (snd (executeTurn ext a w)) =
                 pre @ [CancelPending (pendingId a)
                          (''API call failed: '' @ (if err = [] then ''Unknown error'' else err)),
                        KvDelete [call_key (eventId a)]]"
      by (simp only: w' executeTurn_failed_snd trace_discard) blast
  }
  {
    fix m
    assume h: "final (api ext (api_calls w + N)) = Inr m \<and> stop_reason m = OtherStop"
    then have 3: "final (api ext (api_calls w + N)) = Inr m" and o: "stop_reason m = OtherStop"
      by simp_all
    from succeeds_after[OF assms(1) b 3, of None] obtain w' where
      w': "executeTurn ext a w = handleModelResponse ext a m w'"
      unfolding executeTurn_def by blast
    show "fst (executeTurn ext a w) = Inr ()"
      by (simp add: w' handleModelResponse_other[OF o])
    show "loadCallState (snd (executeTurn ext a w)) (eventId a) = Inl ''Call state not found''"
      by (simp add: w' handleModelResponse_other[OF o] loadCallState_deleteCallState)
    show "\<exists>pre. trace (snd (executeTurn ext a w)) =
                 pre @ [CancelPending (pendingId a) ''Unexpected response from model'',
                        KvDelete [call_key (eventId a)]]"
      by (simp only: w' handleModelResponse_other[OF o] snd_conv trace_discard) blast
  }
  {
    fix m t
    assume h: "final (api ext (api_calls w + N)) = Inr m \<and> stop_reason m = EndTurn
             \<and> schema a = None \<and> find is_text (rev (content m)) = Some (TextBlock t) \<and> t \<noteq> []"
    then have 3: "final (api ext (api_calls w + N)) = Inr m" by simp
    from succeeds_after[OF assms(1) b 3, of None] obtain w' where
      w': "executeTurn ext a w = handleModelResponse ext a m w'" "quiet w' = quiet w"
      unfolding executeTurn_def by blast
    from h have hm: "handleModelResponse ext a m w' =
        (Inr (), emitResult (pendingId a) t None (input_tokens m) (output_tokens m) (eventId a) w')"
      by (intro handleModelResponse_text) simp_all
    show "fst (executeTurn ext a w) = Inr ()" by (simp add: w'(1) hm)
    show "kv (snd (executeTurn ext a w)) = kv w"
      using kv_of_quiet[OF w'(2)] by (simp add: w'(1) hm)
  }
qed

theorem executeTurn_fatal_discards_state_witness:
  "loadCallState suspended_world ''e'' = Inr cs_one_tool
   \<and> fst (executeTurn ext_unauthorized args_hello suspended_world) = Inl ''invalid x-api-key''
   \<and> loadCallState (snd (executeTurn ext_unauthorized args_hello suspended_world)) ''e''
       = Inl ''Call state not found''
   \<and> fst (executeTurn ext_truncated args_hello suspended_world) = Inr ()
   \<and> loadCallState (snd (executeTurn ext_truncated args_hello suspended_world)) ''e''
       = Inl ''Call state not found''
   \<and> fst (executeTurn ext_hi args_hello suspended_world) = Inr ()
   \<and> kv (snd (executeTurn ext_hi args_hello suspended_world)) = kv suspended_world"
proof -
  have kv0: "kv suspended_world = [(''call-e'', CallStateV cs_one_tool)]"
    by (simp add: suspended_world_def storeCallState_def kv_set_def effect_def empty_world_def call_key_def)
  have load: "loadCallState suspended_world ''e'' = Inr cs_one_tool"
    by (simp add: loadCallState_def kv_get_def kv0 call_key_def)
  have c0: "api_calls suspended_world = 0"
    by (simp add: suspended_world_def storeCallState_def)
  have a: "int 0 < maxRetries args_hello" "eventId args_hello = ''e''" "schema args_hello = None"
    by (simp_all add: args_hello_def)
  have none: "\<forall>i<0. \<exists>err. final (api ext (api_calls suspended_world + i)) = Inl err \<and> isRetryable err"
    for ext by simp
  note A = executeTurn_fatal_discards_state[OF none a(1), of ext_unauthorized]
  note B = executeTurn_fatal_discards_state[OF none a(1), of ext_truncated]
  note C = executeTurn_fatal_discards_state[OF none a(1), of ext_hi]
  have fa: "final (api ext_unauthorized (api_calls suspended_world + 0)) = Inl ''invalid x-api-key''
      \<and> (\<not> isRetryable ''invalid x-api-key'' \<or> maxRetries args_hello \<le> int 0 + 1)"
    using not_retryable_unauthorized by (simp add: ext_unauthorized_def)
  have fb: "final (api ext_truncated (api_calls suspended_world + 0))
        = Inr \<lparr>content = [TextBlock ''Hi''], stop_reason = OtherStop, input_tokens = 5, output_tokens = 1\<rparr>
      \<and> stop_reason \<lparr>content = [TextBlock ''Hi''], stop_reason = OtherStop, input_tokens = 5, output_tokens = 1\<rparr>
          = OtherStop"
    by (simp add: ext_truncated_def)
  have fc: "final (api ext_hi (api_calls suspended_world + 0)) = Inr msg_hi \<and> stop_reason msg_hi = EndTurn
      \<and> schema args_hello = None \<and> find is_text (rev (content msg_hi)) = Some (TextBlock ''Hi there'')
      \<and> ''Hi there'' \<noteq> []"
    by (simp add: ext_hi_def msg_hi_def is_text_def a)
  from A fa have "fst (executeTurn ext_unauthorized args_hello suspended_world) = Inl ''invalid x-api-key''
     \<and> loadCallState (snd (executeTurn ext_unauthorized args_hello suspended_world)) (eventId args_hello)
         = Inl ''Call state not found''"
    by blast
  moreover from B fb have "fst (executeTurn ext_truncated args_hello suspended_world) = Inr ()
     \<and> loadCallState (snd (executeTurn ext_truncated args_hello suspended_world)) (eventId args_hello)
         = Inl ''Call state not found''"
    by blast
  moreover from C fc have "fst (executeTurn ext_hi args_hello suspended_world) = Inr ()
     \<and> kv (snd (executeTurn ext_hi args_hello suspended_world)) = kv suspended_world"
    by blast
  ultimately show ?thesis
    using load by (simp add: a)
qed

section \<open>Duplicate tool results\<close>

lemma kv_clearTimeoutTimer [simp]: "kv (clearTimeoutTimer e w) = kv w"
  by (simp add: clearTimeoutTimer_def timers_unset_def effect_def
      split: option.splits KVValue.splits)

lemma kv_storeToolResult:
  "kv (storeToolResult e i r t w) = upsert (result_key e t i) (FragmentV i r) (kv w)"
  by (simp add: storeToolResult_def kv_set_def effect_def)

lemma upsert_same: "map_of kvs k = Some v \<Longrightarrow> upsert k v kvs = kvs"
  by (induction k v kvs rule: upsert.induct) (auto split: if_splits)

lemma loadToolResults_cong:
  "kv_list w' (result_prefix e t) = kv_list w (result_prefix e t) \<Longrightarrow>
     loadToolResults w' e t ids = loadToolResults w e t ids"
  by (simp add: loadToolResults_def)

lemma kv_list_cong: "kv w' = kv w \<Longrightarrow> kv_list w' p = kv_list w p"
  by (simp add: kv_list_def)

lemma kv_get_cong: "kv w' = kv w \<Longrightarrow> kv_get w' k = kv_get w k"
  by (simp add: kv_get_def)

lemma kv_list_setTimeoutTimer:
  "kv_list (setTimeoutTimer e w) (result_prefix e' t) = kv_list w (result_prefix e' t)"
  by (simp add: kv_list_def kv_setTimeoutTimer kv_list_upsert_other)

lemma kv_get_setTimeoutTimer:
  "k \<noteq> timer_key e \<Longrightarrow> kv_get (setTimeoutTimer e w) k = kv_get w k"
  by (simp add: kv_get_def kv_setTimeoutTimer map_of_upsert)

lemma onInternalMessage_unlocked:
  assumes "\<not> isTimerLocked w e" "loadCallState w e = Inr cs"
  shows "onInternalMessage ext inp r e i w =
     (if \<not> fst (loadToolResults (stored_world e i r cs w) e (cs_turn cs) (cs_toolCallIds cs))
      then (Inr (), setTimeoutTimer e (stored_world e i r cs w))
      else continueTurn ext e cs
             (snd (loadToolResults (stored_world e i r cs w) e (cs_turn cs) (cs_toolCallIds cs)))
             (in_apiKey inp) (in_blockId inp) (stored_world e i r cs w))"
  using assms by (simp add: onInternalMessage_def Let_def stored_world_def)

lemma onInternalMessage_after_store:
  assumes "\<not> isTimerLocked w e" "loadCallState w e = Inr cs"
  shows "kv_list (snd (onInternalMessage ext inp r e i w)) (result_prefix e' t)
           = kv_list (stored_world e i r cs w) (result_prefix e' t)"
    and "k \<noteq> call_key e \<Longrightarrow> k \<noteq> timer_key e \<Longrightarrow>
           kv_get (snd (onInternalMessage ext inp r e i w)) k = kv_get (stored_world e i r cs w) k"
proof -
  let ?w2 = "stored_world e i r cs w"
  let ?lr = "loadToolResults ?w2 e (cs_turn cs) (cs_toolCallIds cs)"
  let ?c = "continueTurn ext e cs (snd ?lr) (in_apiKey inp) (in_blockId inp) ?w2"
  have o: "turn_outcome e ?w2 (snd ?c)" by (rule continueTurn_outcome)
  show "kv_list (snd (onInternalMessage ext inp r e i w)) (result_prefix e' t)
           = kv_list ?w2 (result_prefix e' t)"
    using turn_outcome_kv_list[OF o, of e' t]
    by (simp add: onInternalMessage_unlocked[OF assms] kv_list_setTimeoutTimer)
  show "kv_get (snd (onInternalMessage ext inp r e i w)) k = kv_get ?w2 k"
    if "k \<noteq> call_key e" "k \<noteq> timer_key e"
    using turn_outcome_kv_get[OF o that] that(2)
    by (simp add: onInternalMessage_unlocked[OF assms] kv_get_setTimeoutTimer)
qed

lemma onInternalMessage_listing_other_turn:
  assumes "\<not> isTimerLocked w e" "loadCallState w e = Inr cs" "cs_turn cs \<noteq> t"
  shows "kv_list (snd (onInternalMessage ext inp r e i w)) (result_prefix e t)
           = kv_list w (result_prefix e t)"
proof -
  have "\<not> prefix (result_prefix e t) (result_key e (cs_turn cs) i)"
    using assms(3) by (simp add: result_prefix_key)
  then have "kv_list (stored_world e i r cs w) (result_prefix e t) = kv_list w (result_prefix e t)"
    by (simp add: kv_list_def stored_world_def kv_storeToolResult kv_list_upsert_other)
  with onInternalMessage_after_store(1)[OF assms(1,2)] show ?thesis by simp
qed

lemma onInternalMessage_listing_stored:
  assumes "\<not> isTimerLocked w e" "loadCallState w e = Inr cs"
    and "kv_get w (result_key e (cs_turn cs) i) = Some (FragmentV i r)"
  shows "kv_list (snd (onInternalMessage ext inp r e i w)) (result_prefix e t)
           = kv_list w (result_prefix e t)"
proof -
  have "kv (stored_world e i r cs w) = kv w"
    using assms(3) by (simp add: stored_world_def kv_storeToolResult kv_get_def upsert_same)
  then have "kv_list (stored_world e i r cs w) (result_prefix e t) = kv_list w (result_prefix e t)"
    by (rule kv_list_cong)
  with onInternalMessage_after_store(1)[OF assms(1,2)] show ?thesis by simp
qed

lemma onInternalMessage_listing_idle:
  assumes "isTimerLocked w e \<or> (\<exists>err. loadCallState w e = Inl err)"
  shows "snd (onInternalMessage ext inp r e i w) = w"
  using assms by (auto simp: onInternalMessage_def)

text \<open>
  C2, as the claim states it, fails: the same tool result delivered twice resumes the turn
  twice. The model is called once per delivery and the result is emitted twice.
\<close>

theorem onInternalMessage_duplicate_resumes_counterexample:
  "api_calls (snd (onInternalMessage ext_hi handler_input ''42'' ''e'' ''x'' suspended_world)) = 1
   \<and> api_calls (snd (onInternalMessage ext_hi handler_input ''42'' ''e'' ''x''
                  (snd (onInternalMessage ext_hi handler_input ''42'' ''e'' ''x'' suspended_world)))) = 2
   \<and> emits (snd (onInternalMessage ext_hi handler_input ''42'' ''e'' ''x''
                  (snd (onInternalMessage ext_hi handler_input ''42'' ''e'' ''x'' suspended_world))))
       = [Emit ''Hi there'' None 5 3 ''p'' ''e'', Emit ''Hi there'' None 5 3 ''p'' ''e'']"
proof -
  have step: "\<exists>w'. onInternalMessage ext_hi handler_input ''42'' ''e'' ''x'' w
                 = (Inr (), emitResult ''p'' ''Hi there'' None 5 3 ''e'' w')
               \<and> api_calls w' = api_calls w + 1 \<and> kv w' = kv complete_world \<and> emits w' = emits w"
    if kvw: "kv w = [(''call-e'', CallStateV cs_one_tool)] \<or> kv w = kv complete_world" for w
  proof -
    have unlocked: "\<not> isTimerLocked w ''e''"
      using kvw by (auto simp: isTimerLocked_def kv_get_def kv_complete_world lock_key_def truthy_def)
    have load: "loadCallState w ''e'' = Inr cs_one_tool"
      using kvw by (auto simp: loadCallState_def kv_get_def kv_complete_world call_key_def)
    let ?w2 = "stored_world ''e'' ''x'' ''42'' cs_one_tool w"
    have kv2: "kv ?w2 = kv complete_world"
      using kvw
      by (auto simp: stored_world_def kv_storeToolResult kv_complete_world result_key_def show_nat_Suc_0)
    have complete: "fst (loadToolResults ?w2 ''e'' (cs_turn cs_one_tool) (cs_toolCallIds cs_one_tool))"
      by (simp add: loadToolResults_def kv_list_def kv2 kv_complete_world result_prefix_def
          show_nat_Suc_0 toolResults_of_def)
    have calls2: "api_calls ?w2 = api_calls w"
      by (simp add: stored_world_def storeToolResult_def clearTimeoutTimer_def timers_unset_def
          split: option.splits KVValue.splits)
    have emits2: "emits ?w2 = emits w"
      by (simp add: stored_world_def storeToolResult_def kv_set_def emits_effect
          clearTimeoutTimer_def timers_unset_def emits_def effect_def
          split: option.splits KVValue.splits)
    have ans: "final (api ext_hi (api_calls ?w2)) = Inr msg_hi"
      by (simp add: ext_hi_def)
    have m: "stop_reason msg_hi = EndTurn" "find is_text (rev (content msg_hi)) = Some (TextBlock ''Hi there'')"
      "input_tokens msg_hi = 5" "output_tokens msg_hi = 3"
      by (simp_all add: msg_hi_def is_text_def)
    from continueTurn_text[OF ans _ m(1) _ m(2), of cs_one_tool "''e''"
        "snd (loadToolResults ?w2 ''e'' (cs_turn cs_one_tool) (cs_toolCallIds cs_one_tool))"
        "in_apiKey handler_input" "in_blockId handler_input"]
    obtain w' where w': "continueTurn ext_hi ''e'' cs_one_tool
          (snd (loadToolResults ?w2 ''e'' (cs_turn cs_one_tool) (cs_toolCallIds cs_one_tool)))
          (in_apiKey handler_input) (in_blockId handler_input) ?w2
         = (Inr (), emitResult ''p'' ''Hi there'' None 5 3 ''e'' w')"
      "api_calls w' = api_calls ?w2 + 1" "quiet w' = quiet ?w2"
      by (auto simp: m)
    have "onInternalMessage ext_hi handler_input ''42'' ''e'' ''x'' w
            = (Inr (), emitResult ''p'' ''Hi there'' None 5 3 ''e'' w')"
      using complete w'(1) by (simp only: onInternalMessage_unlocked[OF unlocked load] if_False simp_thms)
    moreover have "kv w' = kv complete_world" using kv_of_quiet[OF w'(3)] kv2 by simp
    moreover have "emits w' = emits w" using quiet_cancels_emits[OF w'(3)] emits2 by simp
    ultimately show ?thesis using w'(2) calls2 by (intro exI[of _ w']) simp
  qed
  have kv0: "kv suspended_world = [(''call-e'', CallStateV cs_one_tool)]"
    by (simp add: suspended_world_def storeCallState_def kv_set_def effect_def empty_world_def call_key_def)
  have c0: "api_calls suspended_world = 0" "emits suspended_world = []"
    by (simp_all add: suspended_world_def storeCallState_def kv_set_def emits_effect)
  from step[of suspended_world] kv0 obtain w1 where w1:
    "onInternalMessage ext_hi handler_input ''42'' ''e'' ''x'' suspended_world
       = (Inr (), emitResult ''p'' ''Hi there'' None 5 3 ''e'' w1)"
    "api_calls w1 = 1" "kv w1 = kv complete_world" "emits w1 = []"
    using c0 by auto
  let ?s1 = "emitResult ''p'' ''Hi there'' None 5 3 ''e'' w1"
  have "kv ?s1 = kv complete_world" using w1(3) by simp
  from step[of ?s1] this obtain w2 where w2:
    "onInternalMessage ext_hi handler_input ''42'' ''e'' ''x'' ?s1
       = (Inr (), emitResult ''p'' ''Hi there'' None 5 3 ''e'' w2)"
    "api_calls w2 = api_calls ?s1 + 1" "emits w2 = emits ?s1"
    by auto
  show ?thesis
    unfolding w1(1) snd_conv w2(1)
    using w1 w2 by simp
qed

text \<open>
  C2, amended. Delivering the same tool result a second time does not change what aggregation
  returns for the turn the first delivery was stored under. It does not keep the turn from
  being resumed again: whenever the guard is free, the call state is stored and aggregation is
  complete, the handler enters \<^verbatim>\<open>continueTurn\<close>.
\<close>

theorem onInternalMessage_twice_same_results:
  assumes "loadCallState w e = Inr cs"
  shows "loadToolResults
           (snd (onInternalMessage ext inp r e i (snd (onInternalMessage ext inp r e i w))))
           e (cs_turn cs) ids
         = loadToolResults (snd (onInternalMessage ext inp r e i w)) e (cs_turn cs) ids
       \<and> (\<not> isTimerLocked w e
            \<and> fst (loadToolResults (stored_world e i r cs w) e (cs_turn cs) (cs_toolCallIds cs)) \<longrightarrow>
          onInternalMessage ext inp r e i w =
            continueTurn ext e cs
              (snd (loadToolResults (stored_world e i r cs w) e (cs_turn cs) (cs_toolCallIds cs)))
              (in_apiKey inp) (in_blockId inp) (stored_world e i r cs w))"
proof
  let ?w1 = "snd (onInternalMessage ext inp r e i w)"
  let ?w2 = "snd (onInternalMessage ext inp r e i ?w1)"
  let ?p = "result_prefix e (cs_turn cs)"
  have "kv_list ?w2 ?p = kv_list ?w1 ?p"
  proof (cases "isTimerLocked w e")
    case True
    then have "?w1 = w" by (simp add: onInternalMessage_def)
    then show ?thesis by simp
  next
    case False
    have "kv_get (stored_world e i r cs w) (result_key e (cs_turn cs) i) = Some (FragmentV i r)"
      by (simp add: stored_world_def kv_get_storeToolResult)
    with onInternalMessage_after_store(2)[OF False assms, of "result_key e (cs_turn cs) i" ext inp r i]
    have frag: "kv_get ?w1 (result_key e (cs_turn cs) i) = Some (FragmentV i r)"
      by simp
    show ?thesis
    proof (cases "isTimerLocked ?w1 e \<or> (\<exists>err. loadCallState ?w1 e = Inl err)")
      case True
      then have "?w2 = ?w1" by (rule onInternalMessage_listing_idle)
      then show ?thesis by simp
    next
      case idle: False
      then obtain cs' where cs': "loadCallState ?w1 e = Inr cs'" and u: "\<not> isTimerLocked ?w1 e"
        by (cases "loadCallState ?w1 e") auto
      show ?thesis
      proof (cases "cs_turn cs' = cs_turn cs")
        case True
        with frag have "kv_get ?w1 (result_key e (cs_turn cs') i) = Some (FragmentV i r)" by simp
        from onInternalMessage_listing_stored[OF u cs' this] show ?thesis .
      next
        case False
        from onInternalMessage_listing_other_turn[OF u cs' False] show ?thesis .
      qed
    qed
  qed
  then show "loadToolResults ?w2 e (cs_turn cs) ids = loadToolResults ?w1 e (cs_turn cs) ids"
    by (rule loadToolResults_cong)
next
  show "\<not> isTimerLocked w e
            \<and> fst (loadToolResults (stored_world e i r cs w) e (cs_turn cs) (cs_toolCallIds cs)) \<longrightarrow>
          onInternalMessage ext inp r e i w =
            continueTurn ext e cs
              (snd (loadToolResults (stored_world e i r cs w) e (cs_turn cs) (cs_toolCallIds cs)))
              (in_apiKey inp) (in_blockId inp) (stored_world e i r cs w)"
    using assms by (simp add: onInternalMessage_unlocked)
qed

theorem onInternalMessage_twice_same_results_witness:
  "loadCallState suspended_world ''e'' = Inr cs_one_tool
   \<and> \<not> isTimerLocked suspended_world ''e''
   \<and> fst (loadToolResults (stored_world ''e'' ''x'' ''42'' cs_one_tool suspended_world) ''e'' 1 [''x''])
   \<and> loadToolResults
        (snd (onInternalMessage ext_hi handler_input ''42'' ''e'' ''x''
                (snd (onInternalMessage ext_hi handler_input ''42'' ''e'' ''x'' suspended_world))))
        ''e'' 1 [''x'']
      = loadToolResults (snd (onInternalMessage ext_hi handler_input ''42'' ''e'' ''x'' suspended_world))
          ''e'' 1 [''x'']
   \<and> onInternalMessage ext_hi handler_input ''42'' ''e'' ''x'' suspended_world =
        continueTurn ext_hi ''e'' cs_one_tool
          (snd (loadToolResults (stored_world ''e'' ''x'' ''42'' cs_one_tool suspended_world) ''e'' 1 [''x'']))
          ''k'' ''b'' (stored_world ''e'' ''x'' ''42'' cs_one_tool suspended_world)"
proof -
  have kv0: "kv suspended_world = [(''call-e'', CallStateV cs_one_tool)]"
    by (simp add: suspended_world_def storeCallState_def kv_set_def effect_def empty_world_def call_key_def)
  have load: "loadCallState suspended_world ''e'' = Inr cs_one_tool"
    by (simp add: loadCallState_def kv_get_def kv0 call_key_def)
  have unlocked: "\<not> isTimerLocked suspended_world ''e''"
    by (simp add: isTimerLocked_def kv_get_def kv0 lock_key_def truthy_def)
  have complete: "fst (loadToolResults (stored_world ''e'' ''x'' ''42'' cs_one_tool suspended_world)
                        ''e'' (cs_turn cs_one_tool) (cs_toolCallIds cs_one_tool))"
    by (simp add: loadToolResults_def kv_list_def stored_world_def kv_storeToolResult kv0
        result_key_def result_prefix_def show_nat_Suc_0 toolResults_of_def)
  note T = onInternalMessage_twice_same_results[OF load, of ext_hi handler_input "''42''" "''x''" "[''x'']"]
  have sel: "cs_turn cs_one_tool = 1" "cs_toolCallIds cs_one_tool = [''x'']"
    "in_apiKey handler_input = ''k''" "in_blockId handler_input = ''b''"
    by (simp_all add: handler_input_def)
  from T have same: "loadToolResults
        (snd (onInternalMessage ext_hi handler_input ''42'' ''e'' ''x''
                (snd (onInternalMessage ext_hi handler_input ''42'' ''e'' ''x'' suspended_world))))
        ''e'' (cs_turn cs_one_tool) [''x'']
      = loadToolResults (snd (onInternalMessage ext_hi handler_input ''42'' ''e'' ''x'' suspended_world))
          ''e'' (cs_turn cs_one_tool) [''x'']"
    by (rule conjunct1)
  from T unlocked complete have again: "onInternalMessage ext_hi handler_input ''42'' ''e'' ''x'' suspended_world =
        continueTurn ext_hi ''e'' cs_one_tool
          (snd (loadToolResults (stored_world ''e'' ''x'' ''42'' cs_one_tool suspended_world) ''e''
                  (cs_turn cs_one_tool) (cs_toolCallIds cs_one_tool)))
          (in_apiKey handler_input) (in_blockId handler_input)
          (stored_world ''e'' ''x'' ''42'' cs_one_tool suspended_world)"
    by blast
  from load unlocked complete same again show ?thesis
    unfolding sel by (intro conjI)
qed

section \<open>Timeouts\<close>

lemma timers_okI:
  assumes "distinct (map fst (timers w))"
    and "\<And>i e. (i, e) \<in> set (timers w) \<Longrightarrow> i < next_timer w"
    and "\<And>i e. (i, e) \<in> set (timers w) \<Longrightarrow> kv_get w (timer_key e) = Some (TimerV i)"
  shows "timers_ok w"
  using assms by (auto simp: timers_ok_def list_all_iff)

lemma timers_okD:
  assumes "timers_ok w"
  shows "distinct (map fst (timers w))"
    and "(i, e) \<in> set (timers w) \<Longrightarrow> i < next_timer w"
    and "(i, e) \<in> set (timers w) \<Longrightarrow> kv_get w (timer_key e) = Some (TimerV i)"
  using assms by (auto simp: timers_ok_def list_all_iff)

lemma active_timers_empty_iff: "active_timers w e = [] \<longleftrightarrow> (\<forall>i. (i, e) \<notin> set (timers w))"
  by (auto simp: active_timers_def filter_empty_conv)

lemma distinct_const_length: "distinct ys \<Longrightarrow> \<forall>y \<in> set ys. y = h \<Longrightarrow> length ys \<le> Suc 0"
  by (cases ys; cases "tl ys") auto

lemma timers_ok_at_most_one:
  assumes "timers_ok w"
  shows "length (active_timers w e) \<le> 1"
proof (cases "active_timers w e")
  case Nil
  then show ?thesis by simp
next
  case (Cons h hs)
  then have "h \<in> set (active_timers w e)" by simp
  then have h: "(h, e) \<in> set (timers w)" by (auto simp: active_timers_def)
  have d: "distinct (active_timers w e)"
    using timers_okD(1)[OF assms] by (simp add: active_timers_def distinct_map_filter)
  have "\<forall>y \<in> set (active_timers w e). y = h"
  proof
    fix y assume "y \<in> set (active_timers w e)"
    then have "(y, e) \<in> set (timers w)" by (auto simp: active_timers_def)
    from timers_okD(3)[OF assms this] timers_okD(3)[OF assms h] show "y = h" by simp
  qed
  with d show ?thesis using distinct_const_length by fastforce
qed

lemma timers_ok_cong:
  assumes "kv w' = kv w" "timers w' = timers w" "next_timer w' = next_timer w"
  shows "timers_ok w' = timers_ok w" "active_timers w' e = active_timers w e"
  using assms by (simp_all add: timers_ok_def active_timers_def kv_get_def)

lemma timers_ok_filter:
  assumes "timers_ok w" "kv w' = kv w" "timers w' = filter P (timers w)" "next_timer w' = next_timer w"
  shows "timers_ok w'"
proof (rule timers_okI)
  show "distinct (map fst (timers w'))"
    using timers_okD(1)[OF assms(1)] assms(3) by (simp add: distinct_map_filter)
  show "i < next_timer w'" if "(i, e) \<in> set (timers w')" for i e
    using that timers_okD(2)[OF assms(1), of i e] assms(3,4) by simp
  show "kv_get w' (timer_key e) = Some (TimerV i)" if "(i, e) \<in> set (timers w')" for i e
    using that timers_okD(3)[OF assms(1), of i e] assms(2,3) by (simp add: kv_get_def)
qed

lemma timers_ok_unset:
  assumes "timers_ok w" "kv_get w (timer_key e) = Some (TimerV h)"
    and "kv w' = kv w" "timers w' = filter (\<lambda>(j, e'). j \<noteq> h) (timers w)"
    and "next_timer w' = next_timer w"
  shows "timers_ok w' \<and> active_timers w' e = []"
proof
  show "timers_ok w'" by (rule timers_ok_filter[OF assms(1,3,4,5)])
  show "active_timers w' e = []"
  proof (unfold active_timers_empty_iff, intro allI notI)
    fix i assume "(i, e) \<in> set (timers w')"
    then have m: "(i, e) \<in> set (timers w)" and "i \<noteq> h" using assms(4) by auto
    from timers_okD(3)[OF assms(1) m] assms(2) have "i = h" by simp
    with \<open>i \<noteq> h\<close> show False by simp
  qed
qed

lemma clearTimeoutTimer_ok:
  assumes "timers_ok w"
  shows "timers_ok (clearTimeoutTimer e w) \<and> active_timers (clearTimeoutTimer e w) e = []"
proof (cases "\<exists>h. kv_get w (timer_key e) = Some (TimerV h)")
  case True
  then obtain h where h: "kv_get w (timer_key e) = Some (TimerV h)" by blast
  then have c: "clearTimeoutTimer e w = timers_unset h w" by (simp add: clearTimeoutTimer_def)
  show ?thesis
    unfolding c
    by (rule timers_ok_unset[OF assms h]) (simp_all add: timers_unset_def effect_def)
next
  case False
  then have c: "clearTimeoutTimer e w = w"
    by (auto simp: clearTimeoutTimer_def split: option.splits KVValue.splits)
  have "active_timers w e = []"
  proof (unfold active_timers_empty_iff, intro allI notI)
    fix i assume "(i, e) \<in> set (timers w)"
    from timers_okD(3)[OF assms this] False show False by simp
  qed
  with assms c show ?thesis by simp
qed

lemma timer_fired_ok:
  assumes "timers_ok w" "(j, e) \<in> set (timers w)"
  shows "timers_ok (timer_fired j w) \<and> active_timers (timer_fired j w) e = []"
  by (rule timers_ok_unset[OF assms(1) timers_okD(3)[OF assms]]) (simp_all add: timer_fired_def)

lemma timers_ok_kv_change:
  assumes "timers_ok w" "timers w' = timers w" "next_timer w' = next_timer w"
    and "\<And>e. kv_get w' (timer_key e) = kv_get w (timer_key e)"
  shows "timers_ok w'" "active_timers w' e = active_timers w e"
proof -
  show "timers_ok w'"
  proof (rule timers_okI)
    show "distinct (map fst (timers w'))" using timers_okD(1)[OF assms(1)] assms(2) by simp
    show "i < next_timer w'" if "(i, e) \<in> set (timers w')" for i e
      using that timers_okD(2)[OF assms(1), of i e] assms(2,3) by simp
    show "kv_get w' (timer_key e) = Some (TimerV i)" if "(i, e) \<in> set (timers w')" for i e
      using that timers_okD(3)[OF assms(1), of i e] assms(2,4) by simp
  qed
  show "active_timers w' e = active_timers w e" using assms(2) by (simp add: active_timers_def)
qed

lemma timers_ok_register:
  assumes "timers_ok w" "active_timers w e = []"
    and "timers w' = timers w @ [(next_timer w, e)]" "next_timer w' = Suc (next_timer w)"
    and "kv_get w' (timer_key e) = Some (TimerV (next_timer w))"
    and "\<And>e'. e' \<noteq> e \<Longrightarrow> kv_get w' (timer_key e') = kv_get w (timer_key e')"
  shows "timers_ok w'"
proof (rule timers_okI)
  have "next_timer w \<notin> fst ` set (timers w)"
    using timers_okD(2)[OF assms(1)] by force
  then show "distinct (map fst (timers w'))"
    using timers_okD(1)[OF assms(1)] assms(3) by simp
  show "i < next_timer w'" if "(i, e') \<in> set (timers w')" for i e'
    using that timers_okD(2)[OF assms(1), of i e'] assms(3,4) by auto
  show "kv_get w' (timer_key e') = Some (TimerV i)" if "(i, e') \<in> set (timers w')" for i e'
  proof (cases "(i, e') \<in> set (timers w)")
    case True
    with assms(2) have "e' \<noteq> e" by (auto simp: active_timers_empty_iff)
    with assms(6) timers_okD(3)[OF assms(1) True] show ?thesis by simp
  next
    case False
    with that assms(3) have "i = next_timer w" "e' = e" by auto
    with assms(5) show ?thesis by simp
  qed
qed

lemma setTimeoutTimer_parts:
  "timers (setTimeoutTimer e w) = timers w @ [(next_timer w, e)]"
  "next_timer (setTimeoutTimer e w) = Suc (next_timer w)"
  "kv_get (setTimeoutTimer e w) (timer_key e) = Some (TimerV (next_timer w))"
  by (simp_all add: setTimeoutTimer_def timers_set_def kv_set_def effect_def Let_def kv_get_def
      map_of_upsert)

lemma setTimeoutTimer_ok:
  assumes "timers_ok w" "active_timers w e = []"
  shows "timers_ok (setTimeoutTimer e w)"
  by (rule timers_ok_register[OF assms setTimeoutTimer_parts])
     (simp add: kv_get_setTimeoutTimer)

lemma turn_outcome_ok:
  assumes "turn_outcome e w w'" "timers_ok w" "active_timers w e = []"
  shows "timers_ok w'"
  using assms(1)
proof (cases rule: turn_outcome_cases)
  case same
  with assms(2) timers_ok_cong(1)[of w' w] show ?thesis by simp
next
  case (suspend cs)
  show ?thesis
  proof (rule timers_ok_register[OF assms(2,3) suspend(2,3)])
    show "kv_get w' (timer_key e) = Some (TimerV (next_timer w))"
      by (simp add: kv_get_def suspend(1) map_of_upsert)
    show "kv_get w' (timer_key e') = kv_get w (timer_key e')" if "e' \<noteq> e" for e'
      using that by (simp add: kv_get_def suspend(1) map_of_upsert)
  qed
next
  case discard
  show ?thesis
  proof (rule timers_ok_kv_change(1)[OF assms(2) discard(2,3)])
    show "kv_get w' (timer_key e') = kv_get w (timer_key e')" for e'
      by (simp add: kv_get_def discard(1) map_of_filter_key)
  qed
qed

lemma kv_set_other_ok:
  assumes "timers_ok w" "\<And>e. k \<noteq> timer_key e"
  shows "timers_ok (kv_set k v ttl w)" "active_timers (kv_set k v ttl w) e = active_timers w e"
proof -
  have t: "timers (kv_set k v ttl w) = timers w" "next_timer (kv_set k v ttl w) = next_timer w"
    by (simp_all add: kv_set_def effect_def)
  have g: "kv_get (kv_set k v ttl w) (timer_key e) = kv_get w (timer_key e)" for e
    using assms(2)[of e] by (simp add: kv_get_kv_set)
  show "timers_ok (kv_set k v ttl w)" by (rule timers_ok_kv_change(1)[OF assms(1) t g])
  show "active_timers (kv_set k v ttl w) e = active_timers w e"
    by (rule timers_ok_kv_change(2)[OF assms(1) t g])
qed

lemma kv_delete_other_ok:
  assumes "timers_ok w" "\<And>e. timer_key e \<notin> set ks"
  shows "timers_ok (kv_delete ks w)" "active_timers (kv_delete ks w) e = active_timers w e"
proof -
  have t: "timers (kv_delete ks w) = timers w" "next_timer (kv_delete ks w) = next_timer w"
    by (simp_all add: kv_delete_def effect_def)
  have g: "kv_get (kv_delete ks w) (timer_key e) = kv_get w (timer_key e)" for e
    using assms(2)[of e] by (simp add: kv_get_kv_delete)
  show "timers_ok (kv_delete ks w)" by (rule timers_ok_kv_change(1)[OF assms(1) t g])
  show "active_timers (kv_delete ks w) e = active_timers w e"
    by (rule timers_ok_kv_change(2)[OF assms(1) t g])
qed

lemma timers_ok_durable:
  assumes "durable w' = durable w"
  shows "timers_ok w' = timers_ok w" "active_timers w' e = active_timers w e"
  using assms timers_ok_cong[of w' w] by (simp_all add: durable_def)

lemma executeTurn_ok:
  assumes "timers_ok w" "active_timers w (eventId a) = []"
  shows "timers_ok (snd (executeTurn ext a w))"
  by (rule turn_outcome_ok[OF executeTurn_outcome assms])

lemma continueTurn_ok:
  assumes "timers_ok w" "active_timers w e = []"
  shows "timers_ok (snd (continueTurn ext e cs tr key bid w))"
  by (rule turn_outcome_ok[OF continueTurn_outcome assms])

lemma storeToolResult_ok:
  assumes "timers_ok w"
  shows "timers_ok (storeToolResult e i r t w)"
    "active_timers (storeToolResult e i r t w) e' = active_timers w e'"
  unfolding storeToolResult_def
  by (rule kv_set_other_ok[OF assms], simp)+

lemma onInternalMessage_ok:
  assumes "timers_ok w"
  shows "timers_ok (snd (onInternalMessage ext inp r e i w))"
proof (cases "isTimerLocked w e \<or> (\<exists>err. loadCallState w e = Inl err)")
  case True
  then have "snd (onInternalMessage ext inp r e i w) = w" by (rule onInternalMessage_listing_idle)
  with assms show ?thesis by simp
next
  case False
  then obtain cs where cs: "loadCallState w e = Inr cs" and u: "\<not> isTimerLocked w e"
    by (cases "loadCallState w e") auto
  let ?w1 = "clearTimeoutTimer e w"
  let ?w2 = "stored_world e i r cs w"
  from clearTimeoutTimer_ok[OF assms, of e] have 1: "timers_ok ?w1" "active_timers ?w1 e = []"
    by simp_all
  have 2: "timers_ok ?w2" "active_timers ?w2 e = []"
    using storeToolResult_ok[OF 1(1)] 1(2)
    by (simp_all add: stored_world_def)
  show ?thesis
    using setTimeoutTimer_ok[OF 2] continueTurn_ok[OF 2]
    by (simp add: onInternalMessage_unlocked[OF u cs])
qed

lemma onTimer_ok:
  assumes "timers_ok w" "active_timers w e = []"
  shows "timers_ok (snd (onTimer ext inp e w))"
proof -
  let ?w1 = "setTimerLock e w"
  have nk: "lock_key e \<noteq> timer_key e'" for e' by simp
  have 1: "timers_ok ?w1" "active_timers ?w1 e = []"
    unfolding setTimerLock_def
    using kv_set_other_ok[OF assms(1) nk] assms(2)
    by simp_all
  have unlock: "timers_ok (clearTimerLock e w')" if "timers_ok w'" for w'
    unfolding clearTimerLock_def by (rule kv_delete_other_ok(1)[OF that]) simp
  show ?thesis
  proof (cases "loadCallState ?w1 e")
    case (Inl err)
    with 1 show ?thesis by (simp add: onTimer_def Let_def)
  next
    case (Inr cs)
    let ?lr = "loadToolResults ?w1 e (cs_turn cs) (cs_toolCallIds cs)"
    let ?c = "continueTurn ext e cs (snd ?lr) (in_apiKey inp) (in_blockId inp) ?w1"
    show ?thesis
    proof (cases "fst ?lr")
      case False
      have "timers_ok (cancelPending (cs_pendingId cs) ''Timeout'' (clearTimerLock e ?w1))"
        using unlock[OF 1(1)] timers_ok_durable(1)[OF durable_cancelPending] by simp
      with Inr False show ?thesis by (simp add: onTimer_def Let_def)
    next
      case True
      have c: "timers_ok (snd ?c)" by (rule continueTurn_ok[OF 1])
      obtain res w2 where rc: "?c = (res, w2)" by (cases ?c)
      with c have w2: "timers_ok w2" by simp
      show ?thesis
      proof (cases res)
        case (Inl err)
        with Inr True rc w2 show ?thesis by (simp add: onTimer_def Let_def)
      next
        case (Inr u)
        with \<open>loadCallState ?w1 e = Inr cs\<close> True rc unlock[OF w2] show ?thesis
          by (simp add: onTimer_def Let_def)
      qed
    qed
  qed
qed

text \<open>
  C9, as the claim states it, fails: a timeout registered for a conversation that already has
  one leaves the earlier timer scheduled. Both are active.
\<close>

theorem setTimeoutTimer_twice_counterexample:
  "active_timers (setTimeoutTimer ''e'' (setTimeoutTimer ''e'' empty_world)) ''e'' = [0, 1]"
  by (simp add: active_timers_def setTimeoutTimer_def timers_set_def kv_set_def effect_def
      empty_world_def Let_def)

text \<open>
  C9, amended. Registering a timeout replaces the stored handle and schedules a timer; it does
  not cancel a timer scheduled earlier. Run one after another, the handlers keep the timers'
  invariant, under which a conversation has at most one active timeout: the handler of tool
  results clears the registered timeout before anything is registered, the timeout handler runs
  once the active timer has fired, a turn for a conversation without an active timer registers
  at most one. Clearing when no handle is stored is a no-op.
\<close>

theorem timers_at_most_one:
  "(timers_ok w \<longrightarrow> length (active_timers w e) \<le> 1)
   \<and> (timers_ok w \<longrightarrow> timers_ok (snd (onInternalMessage ext inp r e i w)))
   \<and> (timers_ok w \<and> (j, e) \<in> set (timers w) \<longrightarrow>
        timers_ok (snd (onTimer ext inp e (timer_fired j w))))
   \<and> (timers_ok w \<and> active_timers w (eventId a) = [] \<longrightarrow> timers_ok (snd (executeTurn ext a w)))
   \<and> kv_get (setTimeoutTimer e w) (timer_key e) = Some (TimerV (next_timer w))
   \<and> timers (setTimeoutTimer e w) = timers w @ [(next_timer w, e)]
   \<and> (kv_get w (timer_key e) = None \<longrightarrow> clearTimeoutTimer e w = w)"
proof (intro conjI impI)
  show "length (active_timers w e) \<le> 1" if "timers_ok w"
    using that by (rule timers_ok_at_most_one)
  show "timers_ok (snd (onInternalMessage ext inp r e i w))" if "timers_ok w"
    using that by (rule onInternalMessage_ok)
  show "timers_ok (snd (onTimer ext inp e (timer_fired j w)))"
    if "timers_ok w \<and> (j, e) \<in> set (timers w)"
  proof -
    from that timer_fired_ok[of w j e]
    have "timers_ok (timer_fired j w)" "active_timers (timer_fired j w) e = []" by simp_all
    then show ?thesis by (rule onTimer_ok)
  qed
  show "timers_ok (snd (executeTurn ext a w))" if "timers_ok w \<and> active_timers w (eventId a) = []"
    using that executeTurn_ok by simp
  show "kv_get (setTimeoutTimer e w) (timer_key e) = Some (TimerV (next_timer w))"
    by (rule setTimeoutTimer_parts)
  show "timers (setTimeoutTimer e w) = timers w @ [(next_timer w, e)]"
    by (rule setTimeoutTimer_parts)
  show "clearTimeoutTimer e w = w" if "kv_get w (timer_key e) = None"
    using that by (simp add: clearTimeoutTimer_def)
qed

theorem timers_at_most_one_witness:
  "timers_ok empty_world \<and> timers_ok waiting_world \<and> (0, ''e'') \<in> set (timers waiting_world)
   \<and> kv_get empty_world (timer_key ''e'') = None
   \<and> active_timers empty_world (eventId args_hello) = []
   \<and> length (active_timers waiting_world ''e'') \<le> 1
   \<and> timers_ok (snd (onInternalMessage ext_hi handler_input ''42'' ''e'' ''x'' waiting_world))
   \<and> timers_ok (snd (onTimer ext_hi handler_input ''e'' (timer_fired 0 waiting_world)))
   \<and> timers_ok (snd (executeTurn ext_hi args_hello empty_world))
   \<and> clearTimeoutTimer ''e'' empty_world = empty_world"
proof -
  have e: "timers_ok empty_world" "kv_get empty_world (timer_key ''e'') = None"
    "active_timers empty_world (eventId args_hello) = []"
    by (simp_all add: timers_ok_def active_timers_def kv_get_def)
  have s: "timers_ok suspended_world" "active_timers suspended_world ''e'' = []"
    "timers suspended_world = []" "next_timer suspended_world = 0"
    by (simp_all add: timers_ok_def active_timers_def suspended_world_def storeCallState_def
        kv_set_def effect_def empty_world_def)
  have w: "timers_ok waiting_world" unfolding waiting_world_def by (rule setTimeoutTimer_ok[OF s(1,2)])
  have t: "(0, ''e'') \<in> set (timers waiting_world)"
    by (simp add: waiting_world_def setTimeoutTimer_parts s)
  note A = timers_at_most_one[of waiting_world "''e''" ext_hi handler_input "''42''" "''x''" 0 args_hello]
  note B = timers_at_most_one[of empty_world "''e''" ext_hi handler_input "''42''" "''x''" 0 args_hello]
  from A w t have "length (active_timers waiting_world ''e'') \<le> 1
     \<and> timers_ok (snd (onInternalMessage ext_hi handler_input ''42'' ''e'' ''x'' waiting_world))
     \<and> timers_ok (snd (onTimer ext_hi handler_input ''e'' (timer_fired 0 waiting_world)))"
    by blast
  moreover from B e have "timers_ok (snd (executeTurn ext_hi args_hello empty_world))
     \<and> clearTimeoutTimer ''e'' empty_world = empty_world"
    by blast
  ultimately show ?thesis using e w t by blast
qed

end
